theory Spec2Isabelle
  imports Main
begin

section \<open>Data model (kvstore.h, guard.h, wal.h)\<close>

text \<open>
  A \<open>std::chrono::system_clock::time_point\<close> is a signed tick count since the epoch.
  The build this repository ships (Dockerfile: Ubuntu 24.04, GCC, libstdc++) counts
  nanoseconds, so one millisecond is \<open>ticks_per_ms\<close> ticks.
\<close>

type_synonym time_point = int

definition ticks_per_ms :: int where
  "ticks_per_ms = 1000000"

definition ticks_per_second :: int where
  "ticks_per_second = 1000000000"

record Version =
  timestamp :: time_point
  v_value :: string

datatype RetentionMode = FULL | LAST_N | LAST_T

record RetentionPolicy =
  mode :: RetentionMode
  count :: int
  seconds :: int

text \<open>Modelled from the spec: status.h is absent; its three values are those the
  sources use (\<open>Status::OK\<close>, \<open>Status::NOT_FOUND\<close>, \<open>Status::ERROR\<close>).\<close>

datatype Status = OK | NOT_FOUND | ERROR

datatype DecisionPolicy = DEV_FRIENDLY | SAFE_DEFAULT | STRICT

datatype GuardResult = ACCEPT | REJECT | COUNTER_OFFER

record Alternative =
  alt_value :: string
  explanation :: string

record WriteEvaluation =
  result :: GuardResult
  eval_key :: string
  proposedValue :: string
  reason :: string
  alternatives :: "Alternative list"
  triggeredGuards :: "string list"
  appliedPolicy :: DecisionPolicy
  policyReasoning :: string

text \<open>The three guard classes; the fields of the base class \<open>Guard\<close> are the record's.
  \<open>pattern\<close> is the member the source calls \<open>key\<close>.\<close>

datatype GuardKind =
    RangeIntGuard int int
  | EnumGuard "string list"
  | LengthGuard nat nat

record Guard =
  name :: string
  pattern :: string
  g_enabled :: bool
  kind :: GuardKind

record ExplainResult =
  found :: bool
  ex_key :: string
  queryTimestamp :: time_point
  selectedVersion :: "Version option"
  reasoning :: string
  skippedVersions :: "Version list"
  totalVersions :: nat

text \<open>The WAL object: its \<open>enabled\<close> flag, whether \<open>logFile\<close> is open, and the text of
  the file at \<open>walPath\<close>.\<close>

record WAL =
  enabled :: bool
  is_open :: bool
  logFile :: string

record KVStore =
  store :: "string \<rightharpoonup> Version list"
  wal :: "WAL option"
  walEnabled :: bool
  retentionPolicy :: RetentionPolicy
  guards :: "Guard list"
  decisionPolicy :: DecisionPolicy

definition RetentionPolicy_default :: RetentionPolicy where
  "RetentionPolicy_default = \<lparr>mode = FULL, count = 0, seconds = 0\<rparr>"

definition KVStore_new :: "WAL option \<Rightarrow> KVStore" where
  "KVStore_new walPtr =
     \<lparr>store = Map.empty, wal = walPtr, walEnabled = True,
      retentionPolicy = RetentionPolicy_default, guards = [],
      decisionPolicy = SAFE_DEFAULT\<rparr>"

section \<open>Decimal output (\<open>std::to_string\<close>, \<open>operator<<\<close> on integers)\<close>

definition digit_char :: "nat \<Rightarrow> char" where
  "digit_char d = char_of (48 + d)"

fun digits :: "nat \<Rightarrow> string" where
  "digits n = (if n < 10 then [digit_char n] else digits (n div 10) @ [digit_char (n mod 10)])"

declare digits.simps [simp del]

definition to_string :: "int \<Rightarrow> string" where
  "to_string i = (if i < 0 then CHR ''-'' # digits (nat (- i)) else digits (nat i))"

section \<open>Temporal store (KVStore)\<close>

definition getHistory :: "KVStore \<Rightarrow> string \<Rightarrow> Version list" where
  "getHistory st key = (case store st key of Some versions \<Rightarrow> versions | None \<Rightarrow> [])"

definition get :: "KVStore \<Rightarrow> string \<Rightarrow> string option" where
  "get st key =
     (case store st key of
        Some versions \<Rightarrow> if versions \<noteq> [] then Some (v_value (last versions)) else None
      | None \<Rightarrow> None)"

text \<open>The loop of \<open>getAtTime\<close>: \<open>res\<close> is the local \<open>result\<close>; the \<open>else\<close> branch is the
  \<open>break\<close>.\<close>

fun getAtTime_loop :: "time_point \<Rightarrow> Version list \<Rightarrow> string option \<Rightarrow> string option" where
  "getAtTime_loop T [] res = res"
| "getAtTime_loop T (version # rest) res =
     (if timestamp version \<le> T then getAtTime_loop T rest (Some (v_value version)) else res)"

definition getAtTime :: "KVStore \<Rightarrow> string \<Rightarrow> time_point \<Rightarrow> string option" where
  "getAtTime st key T =
     (case store st key of
        None \<Rightarrow> None
      | Some versions \<Rightarrow> if versions = [] then None else getAtTime_loop T versions None)"

text \<open>The loop of \<open>explainGetAtTime\<close> over the indices \<open>i\<close> of \<open>versions\<close>: \<open>rest\<close> is
  \<open>versions\<close> from index \<open>i\<close> on, \<open>sel\<close> is \<open>selectedIndex\<close>, \<open>skipped\<close> is
  \<open>result.skippedVersions\<close>.\<close>

fun explain_loop ::
  "Version list \<Rightarrow> time_point \<Rightarrow> Version list \<Rightarrow> nat \<Rightarrow> nat option \<Rightarrow> Version list
     \<Rightarrow> nat option \<times> Version list" where
  "explain_loop versions T [] i sel skipped = (sel, skipped)"
| "explain_loop versions T (version # rest) i sel skipped =
     (if timestamp version \<le> T
      then explain_loop versions T rest (Suc i) (Some i)
             (case sel of Some j \<Rightarrow> skipped @ [versions ! j] | None \<Rightarrow> skipped)
      else (sel, skipped))"

definition explain_reasoning :: "nat \<Rightarrow> nat \<Rightarrow> nat \<Rightarrow> string" where
  "explain_reasoning selectedIndex ntotal nskipped =
     ''Selected version at index '' @ to_string (int selectedIndex)
     @ '' (0-based) out of '' @ to_string (int ntotal) @ '' total versions. ''
     @ ''This is the most recent version at or before the query timestamp.''
     @ (if nskipped \<noteq> 0
        then '' Skipped '' @ to_string (int nskipped)
             @ '' older version(s) that were also valid but superseded.''
        else [])
     @ (if ntotal - selectedIndex - 1 > 0
        then '' Excluded '' @ to_string (int (ntotal - selectedIndex - 1))
             @ '' version(s) that occurred after the query timestamp.''
        else [])"

definition explainGetAtTime :: "KVStore \<Rightarrow> string \<Rightarrow> time_point \<Rightarrow> ExplainResult" where
  "explainGetAtTime st key T =
     (let res = \<lparr>found = False, ex_key = key, queryTimestamp = T, selectedVersion = None,
                 reasoning = [], skippedVersions = [], totalVersions = 0\<rparr>
      in case store st key of
           None \<Rightarrow> res\<lparr>reasoning := ''Key not found in database''\<rparr>
         | Some versions \<Rightarrow>
             if versions = [] then res\<lparr>reasoning := ''Key not found in database''\<rparr>
             else
               (case explain_loop versions T versions 0 None [] of
                  (Some i, skipped) \<Rightarrow>
                    res\<lparr>found := True, selectedVersion := Some (versions ! i),
                        skippedVersions := skipped, totalVersions := length versions,
                        reasoning := explain_reasoning i (length versions) (length skipped)\<rparr>
                | (None, skipped) \<Rightarrow>
                    res\<lparr>skippedVersions := skipped, totalVersions := length versions,
                        reasoning := ''No version found at or before the query timestamp. All ''
                          @ to_string (int (length versions))
                          @ '' version(s) occurred after the query time.''\<rparr>))"

subsection \<open>Retention\<close>

text \<open>\<open>applyRetention\<close> reads the clock in the \<open>LAST_T\<close> case only; \<open>now\<close> is that reading.\<close>

definition applyRetention :: "KVStore \<Rightarrow> string \<Rightarrow> time_point \<Rightarrow> KVStore" where
  "applyRetention st key now =
     (case store st key of
        None \<Rightarrow> st
      | Some versions \<Rightarrow>
          if versions = [] then st
          else
            (case mode (retentionPolicy st) of
               FULL \<Rightarrow> st
             | LAST_N \<Rightarrow>
                 if count (retentionPolicy st) > 0
                    \<and> length versions > nat (count (retentionPolicy st))
                 then st\<lparr>store := (store st)
                        (key \<mapsto> drop (length versions - nat (count (retentionPolicy st))) versions)\<rparr>
                 else st
             | LAST_T \<Rightarrow>
                 if seconds (retentionPolicy st) > 0
                 then
                   (let cutoff = now - seconds (retentionPolicy st) * ticks_per_second
                    in st\<lparr>store := (store st)
                          (key \<mapsto> dropWhile (\<lambda>v. \<not> timestamp v \<ge> cutoff) versions)\<rparr>)
                 else st))"

text \<open>\<open>setAtTime\<close>, the replay entry point: no WAL write. \<open>rnow\<close> is the clock reading
  inside \<open>applyRetention\<close>.\<close>

definition setAtTime ::
  "KVStore \<Rightarrow> string \<Rightarrow> string \<Rightarrow> time_point \<Rightarrow> time_point \<Rightarrow> Status \<times> KVStore" where
  "setAtTime st key val ts rnow =
     (let st1 = st\<lparr>store := (store st)
                  (key \<mapsto> getHistory st key @ [\<lparr>timestamp = ts, v_value = val\<rparr>])\<rparr>
      in (OK, applyRetention st1 key rnow))"

section \<open>Policy transformer\<close>

definition applyDecisionPolicy :: "KVStore \<Rightarrow> WriteEvaluation \<Rightarrow> WriteEvaluation" where
  "applyDecisionPolicy st evaluation =
     (let ev = evaluation\<lparr>appliedPolicy := decisionPolicy st\<rparr>
      in if result ev = ACCEPT
         then ev\<lparr>policyReasoning := ''No policy applied - all guards passed''\<rparr>
         else
           (case decisionPolicy st of
              STRICT \<Rightarrow>
                if result ev = COUNTER_OFFER
                then ev\<lparr>result := REJECT,
                        policyReasoning := ''Rejected under STRICT policy due to guard violation'',
                        alternatives := []\<rparr>
                else ev\<lparr>policyReasoning := ''Rejected under STRICT policy due to guard violation''\<rparr>
            | DEV_FRIENDLY \<Rightarrow>
                if result ev = REJECT
                then ev\<lparr>policyReasoning :=
                          ''Rejected under DEV_FRIENDLY policy - value cannot be salvaged''\<rparr>
                else if result ev = COUNTER_OFFER
                then ev\<lparr>policyReasoning :=
                          ''Counter-offer under DEV_FRIENDLY policy - showing alternatives''\<rparr>
                else ev
            | SAFE_DEFAULT \<Rightarrow>
                if result ev = COUNTER_OFFER
                then
                  (if alternatives ev = []
                   then ev\<lparr>result := REJECT,
                           policyReasoning :=
                             ''Rejected under SAFE_DEFAULT policy - no safe alternatives available''\<rparr>
                   else ev\<lparr>policyReasoning :=
                             ''Counter-offer under SAFE_DEFAULT policy - safe alternatives available''\<rparr>)
                else if result ev = REJECT
                then ev\<lparr>policyReasoning :=
                          ''Rejected under SAFE_DEFAULT policy - critical violation''\<rparr>
                else ev))"

section \<open>Decimal input (\<open>std::stoi\<close>, \<open>operator>>\<close> on integers)\<close>

text \<open>\<open>isspace\<close>, \<open>isdigit\<close> and \<open>tolower\<close> of the C locale.\<close>

definition isspace_c :: "char \<Rightarrow> bool" where
  "isspace_c c = ((of_char c :: nat) = 32 \<or> (9 \<le> (of_char c :: nat) \<and> (of_char c :: nat) \<le> 13))"

definition isdigit_c :: "char \<Rightarrow> bool" where
  "isdigit_c c = (48 \<le> (of_char c :: nat) \<and> (of_char c :: nat) \<le> 57)"

definition tolower_c :: "char \<Rightarrow> char" where
  "tolower_c c =
     (if 65 \<le> (of_char c :: nat) \<and> (of_char c :: nat) \<le> 90
      then char_of ((of_char c :: nat) + 32) else c)"

definition toupper_c :: "char \<Rightarrow> char" where
  "toupper_c c =
     (if 97 \<le> (of_char c :: nat) \<and> (of_char c :: nat) \<le> 122
      then char_of ((of_char c :: nat) - 32) else c)"

definition digit_val :: "char \<Rightarrow> nat" where
  "digit_val c = of_char c - 48"

definition digits_value :: "string \<Rightarrow> nat" where
  "digits_value ds = foldl (\<lambda>acc c. acc * 10 + digit_val c) 0 ds"

text \<open>The decimal prefix both \<open>strtol\<close> and \<open>num_get\<close> read: white space, an optional sign,
  then at least one digit. The result is the number and the unread rest, or \<open>None\<close> when
  no digit stands there. The number is not yet bounded.\<close>

definition parse_decimal :: "string \<Rightarrow> (int \<times> string) option" where
  "parse_decimal s =
     (let s1 = dropWhile isspace_c s;
          neg = (s1 \<noteq> [] \<and> hd s1 = CHR ''-'');
          s2 = (if s1 \<noteq> [] \<and> (hd s1 = CHR ''-'' \<or> hd s1 = CHR ''+'') then tl s1 else s1);
          ds = takeWhile isdigit_c s2
      in if ds = [] then None
         else Some (if neg then - int (digits_value ds) else int (digits_value ds),
                    dropWhile isdigit_c s2))"

text \<open>\<open>std::stoi\<close>: \<open>None\<close> stands for both exceptions (\<open>invalid_argument\<close> when no number
  is read, \<open>out_of_range\<close> when it does not fit an \<open>int\<close>).\<close>

definition stoi :: "string \<Rightarrow> int option" where
  "stoi s =
     (case parse_decimal s of
        None \<Rightarrow> None
      | Some (v, rest) \<Rightarrow> if - 2147483648 \<le> v \<and> v \<le> 2147483647 then Some v else None)"

text \<open>Integer division of C++ truncates toward zero.\<close>

definition c_div :: "int \<Rightarrow> int \<Rightarrow> int" where
  "c_div a b = (if (a < 0) = (b < 0) then \<bar>a\<bar> div \<bar>b\<bar> else - (\<bar>a\<bar> div \<bar>b\<bar>))"

section \<open>Guards (guard.cpp)\<close>

text \<open>\<open>Guard::appliesTo\<close>. On an empty pattern the source reads \<open>key.back()\<close> of an empty
  string, which C++ leaves undefined; the model answers \<open>False\<close> there.\<close>

definition appliesTo :: "Guard \<Rightarrow> string \<Rightarrow> bool" where
  "appliesTo g targetKey =
     (if pattern g = ''*'' then True
      else if pattern g = targetKey then True
      else if pattern g \<noteq> [] \<and> last (pattern g) = CHR ''*''
      then take (length (butlast (pattern g))) targetKey = butlast (pattern g)
      else False)"

definition quote_c :: char where
  "quote_c = CHR 0x27"

fun join_quoted :: "string list \<Rightarrow> string" where
  "join_quoted [] = []"
| "join_quoted [a] = quote_c # a @ [quote_c]"
| "join_quoted (a # b # rest) = quote_c # a @ [quote_c] @ '', '' @ join_quoted (b # rest)"

definition range_text :: "int \<Rightarrow> int \<Rightarrow> string" where
  "range_text lo hi = ''['' @ to_string lo @ '', '' @ to_string hi @ '']''"

text \<open>\<open>evaluate\<close> of the three classes: the verdict and the text written to \<open>reason\<close>.\<close>

definition evaluate :: "Guard \<Rightarrow> string \<Rightarrow> GuardResult \<times> string" where
  "evaluate g proposed =
     (case kind g of
        RangeIntGuard minValue maxValue \<Rightarrow>
          (case stoi proposed of
             Some v \<Rightarrow>
               if v \<ge> minValue \<and> v \<le> maxValue
               then (ACCEPT, ''Value within acceptable range '' @ range_text minValue maxValue)
               else (COUNTER_OFFER,
                     ''Value '' @ to_string v @ '' outside acceptable range ''
                       @ range_text minValue maxValue)
           | None \<Rightarrow> (REJECT, ''Value is not a valid integer''))
      | EnumGuard allowedValues \<Rightarrow>
          if proposed \<in> set allowedValues
          then (ACCEPT, ''Value is in allowed set'')
          else (COUNTER_OFFER,
                ''Value '' @ [quote_c] @ proposed @ [quote_c] @ '' not in allowed set: {''
                  @ join_quoted allowedValues @ ''}'')
      | LengthGuard minLength maxLength \<Rightarrow>
          if length proposed \<ge> minLength \<and> length proposed \<le> maxLength
          then (ACCEPT,
                ''Length '' @ to_string (int (length proposed)) @ '' within acceptable range ''
                  @ range_text (int minLength) (int maxLength))
          else (COUNTER_OFFER,
                ''Length '' @ to_string (int (length proposed)) @ '' outside acceptable range ''
                  @ range_text (int minLength) (int maxLength)))"

text \<open>\<open>std::string::find(needle) != npos\<close>.\<close>

fun starts_with :: "string \<Rightarrow> string \<Rightarrow> bool" where
  "starts_with s [] = True"
| "starts_with [] (c # cs) = False"
| "starts_with (x # xs) (c # cs) = (x = c \<and> starts_with xs cs)"

fun str_find :: "string \<Rightarrow> string \<Rightarrow> bool" where
  "str_find [] needle = (needle = [])"
| "str_find (h # hs) needle = (starts_with (h # hs) needle \<or> str_find hs needle)"

text \<open>The second loop of \<open>EnumGuard::generateAlternatives\<close> (partial matches, skipping the
  values already suggested).\<close>

fun enum_partial :: "string \<Rightarrow> string list \<Rightarrow> Alternative list \<Rightarrow> Alternative list" where
  "enum_partial lowerProposed [] alts = alts"
| "enum_partial lowerProposed (allowed # rest) alts =
     enum_partial lowerProposed rest
       (if (str_find (map tolower_c allowed) lowerProposed
            \<or> str_find lowerProposed (map tolower_c allowed))
           \<and> allowed \<notin> alt_value ` set alts
        then alts @ [\<lparr>alt_value = allowed, explanation = ''Similar to proposed value''\<rparr>]
        else alts)"

text \<open>\<open>generateAlternatives\<close> of the three classes. The arithmetic of the range guard is
  that of mathematical integers: it is the source's wherever \<open>maxValue - minValue\<close> and
  \<open>minValue + maxValue\<close> fit an \<open>int\<close> (elsewhere C++ leaves the result undefined).\<close>

definition generateAlternatives :: "Guard \<Rightarrow> string \<Rightarrow> Alternative list" where
  "generateAlternatives g proposed =
     (case kind g of
        RangeIntGuard minValue maxValue \<Rightarrow>
          (case stoi proposed of
             Some v \<Rightarrow>
               if v < minValue
               then \<lparr>alt_value = to_string minValue,
                     explanation = ''Minimum allowed value (proposed '' @ to_string v
                       @ '' is too low)''\<rparr>
                    # (if maxValue > minValue
                       then [\<lparr>alt_value = to_string (minValue + c_div (maxValue - minValue) 4),
                              explanation = ''Conservative value within range''\<rparr>]
                       else [])
               else if v > maxValue
               then \<lparr>alt_value = to_string maxValue,
                     explanation = ''Maximum allowed value (proposed '' @ to_string v
                       @ '' is too high)''\<rparr>
                    # (if maxValue > minValue
                       then [\<lparr>alt_value = to_string (maxValue - c_div (maxValue - minValue) 4),
                              explanation = ''Conservative value within range''\<rparr>]
                       else [])
               else []
           | None \<Rightarrow>
               [\<lparr>alt_value = to_string minValue, explanation = ''Minimum allowed value''\<rparr>,
                \<lparr>alt_value = to_string (c_div (minValue + maxValue) 2),
                 explanation = ''Midpoint value''\<rparr>,
                \<lparr>alt_value = to_string maxValue, explanation = ''Maximum allowed value''\<rparr>])
      | EnumGuard allowedValues \<Rightarrow>
          (let lowerProposed = map tolower_c proposed;
               exact = map (\<lambda>allowed. \<lparr>alt_value = allowed,
                                explanation = ''Case-corrected version of proposed value''\<rparr>)
                         (filter (\<lambda>allowed. map tolower_c allowed = lowerProposed) allowedValues);
               alts = enum_partial lowerProposed allowedValues exact
           in if alts = []
              then map (\<lambda>allowed. \<lparr>alt_value = allowed, explanation = ''Allowed value''\<rparr>)
                     (take (min 3 (length allowedValues)) allowedValues)
              else alts)
      | LengthGuard minLength maxLength \<Rightarrow>
          if length proposed < minLength
          then [\<lparr>alt_value = proposed @ replicate (minLength - length proposed) (CHR ''*''),
                 explanation = ''Padded to minimum length '' @ to_string (int minLength)\<rparr>]
          else if length proposed > maxLength
          then \<lparr>alt_value = take maxLength proposed,
                explanation = ''Truncated to maximum length '' @ to_string (int maxLength)\<rparr>
               # (if maxLength > 5
                  then [\<lparr>alt_value = take (maxLength * 4 div 5) proposed,
                         explanation = ''Truncated to '' @ to_string (int (maxLength * 4 div 5))
                           @ '' characters (safer margin)''\<rparr>]
                  else [])
          else [])"

section \<open>Write evaluation (KVStore)\<close>

definition getGuardsForKey :: "KVStore \<Rightarrow> string \<Rightarrow> Guard list" where
  "getGuardsForKey st key = filter (\<lambda>g. g_enabled g \<and> appliesTo g key) (guards st)"

definition addGuard :: "KVStore \<Rightarrow> Guard \<Rightarrow> KVStore" where
  "addGuard st g = st\<lparr>guards := guards st @ [g]\<rparr>"

text \<open>The inner loop of \<open>simulateWrite\<close> that appends the alternatives of one guard to
  \<open>collectedAlternatives\<close>, leaving out a value already there.\<close>

fun collect_alternatives :: "Alternative list \<Rightarrow> Alternative list \<Rightarrow> Alternative list" where
  "collect_alternatives collected [] = collected"
| "collect_alternatives collected (alt # guardAlts) =
     collect_alternatives
       (if alt_value alt \<in> alt_value ` set collected then collected else collected @ [alt])
       guardAlts"

text \<open>The loop of \<open>simulateWrite\<close> over the applicable guards, with the locals
  \<open>evaluation\<close>, \<open>allAccepted\<close> and \<open>collectedAlternatives\<close>; the empty list is the code
  after the loop, the \<open>REJECT\<close> branch is the early \<open>return\<close>.\<close>

fun simulate_loop ::
  "string \<Rightarrow> Guard list \<Rightarrow> WriteEvaluation \<Rightarrow> bool \<Rightarrow> Alternative list \<Rightarrow> WriteEvaluation" where
  "simulate_loop proposed [] evaluation allAccepted collected =
     (if \<not> allAccepted
      then evaluation\<lparr>result := COUNTER_OFFER, alternatives := collected\<rparr>
      else evaluation\<lparr>reason := ''All guards passed''\<rparr>)"
| "simulate_loop proposed (g # rest) evaluation allAccepted collected =
     (case evaluate g proposed of
        (guardResult, guardReason) \<Rightarrow>
          if guardResult = REJECT
          then evaluation\<lparr>result := REJECT,
                 triggeredGuards := triggeredGuards evaluation @ [name g],
                 reason := guardReason\<rparr>
          else if guardResult = COUNTER_OFFER
          then simulate_loop proposed rest
                 (evaluation\<lparr>triggeredGuards := triggeredGuards evaluation @ [name g],
                    reason := (if reason evaluation = [] then guardReason
                               else reason evaluation @ ''; '' @ guardReason)\<rparr>)
                 False
                 (collect_alternatives collected (generateAlternatives g proposed))
          else simulate_loop proposed rest evaluation allAccepted collected)"

definition WriteEvaluation_new :: WriteEvaluation where
  "WriteEvaluation_new =
     \<lparr>result = ACCEPT, eval_key = [], proposedValue = [], reason = [], alternatives = [],
      triggeredGuards = [], appliedPolicy = SAFE_DEFAULT, policyReasoning = []\<rparr>"

definition simulateWrite :: "KVStore \<Rightarrow> string \<Rightarrow> string \<Rightarrow> WriteEvaluation" where
  "simulateWrite st key proposed =
     (let evaluation = WriteEvaluation_new\<lparr>eval_key := key, proposedValue := proposed\<rparr>;
          applicableGuards = getGuardsForKey st key
      in if applicableGuards = []
         then evaluation\<lparr>reason := ''No guards defined for this key''\<rparr>
         else simulate_loop proposed applicableGuards evaluation True [])"

text \<open>\<open>proposeSet\<close> is a non-const member function: the model returns the evaluation and
  the engine state after the call. It takes no clock reading and no I/O outcome because
  the source reads neither.\<close>

definition proposeSet :: "KVStore \<Rightarrow> string \<Rightarrow> string \<Rightarrow> WriteEvaluation \<times> KVStore" where
  "proposeSet st key proposed = (applyDecisionPolicy st (simulateWrite st key proposed), st)"

section \<open>Write-ahead log (wal.cpp)\<close>

text \<open>
  What the stream write inside a log function does: the record reaches the file
  (\<open>IoOk\<close>); the stream fails (\<open>IoFails\<close>: an \<open>ofstream\<close> then sets its error bits and
  throws nothing, since the source sets no exception mask) and the record is lost; or
  a \<open>std::exception\<close> is thrown inside the \<open>try\<close> block (\<open>IoThrows\<close>).
\<close>

datatype io_outcome = IoOk | IoFails | IoThrows

definition newline :: char where
  "newline = CHR 0x0A"

text \<open>\<open>duration_cast<milliseconds>(timestamp.time_since_epoch()).count()\<close> and
  \<open>time_point(milliseconds(timestampMs))\<close>. The product is that of mathematical
  integers: it is the source's wherever it fits the 64-bit tick count (elsewhere the
  compiled code wraps).\<close>

definition epoch_ms :: "time_point \<Rightarrow> int" where
  "epoch_ms ts = c_div ts ticks_per_ms"

definition from_epoch_ms :: "int \<Rightarrow> time_point" where
  "from_epoch_ms ms = ms * ticks_per_ms"

definition set_record :: "string \<Rightarrow> string \<Rightarrow> time_point \<Rightarrow> string" where
  "set_record key val ts = ''SET '' @ key @ '' '' @ val @ '' '' @ to_string (epoch_ms ts)"

definition del_record :: "string \<Rightarrow> string" where
  "del_record key = ''DEL '' @ key"

definition policy_record :: "string \<Rightarrow> string" where
  "policy_record policyName = ''POLICY SET '' @ policyName"

text \<open>The body shared by \<open>logSet\<close>, \<open>logDel\<close> and \<open>logPolicy\<close>: the guard on \<open>enabled\<close> and
  the open file, then the write of one line. None of the three assigns \<open>enabled\<close>.\<close>

definition log_line :: "WAL \<Rightarrow> string \<Rightarrow> io_outcome \<Rightarrow> Status \<times> WAL" where
  "log_line w line io =
     (if \<not> enabled w \<or> \<not> is_open w then (ERROR, w)
      else
        (case io of
           IoOk \<Rightarrow> (OK, w\<lparr>logFile := logFile w @ line @ [newline]\<rparr>)
         | IoFails \<Rightarrow> (OK, w)
         | IoThrows \<Rightarrow> (ERROR, w)))"

definition logSet :: "WAL \<Rightarrow> string \<Rightarrow> string \<Rightarrow> time_point \<Rightarrow> io_outcome \<Rightarrow> Status \<times> WAL" where
  "logSet w key val ts io = log_line w (set_record key val ts) io"

definition logDel :: "WAL \<Rightarrow> string \<Rightarrow> io_outcome \<Rightarrow> Status \<times> WAL" where
  "logDel w key io = log_line w (del_record key) io"

definition logPolicy :: "WAL \<Rightarrow> string \<Rightarrow> io_outcome \<Rightarrow> Status \<times> WAL" where
  "logPolicy w policyName io = log_line w (policy_record policyName) io"

text \<open>\<open>WAL::initialize\<close>; \<open>ok\<close> says whether the directory could be made and the file
  opened.\<close>

definition initialize :: "WAL \<Rightarrow> bool \<Rightarrow> Status \<times> WAL" where
  "initialize w ok =
     (if ok then (OK, w\<lparr>enabled := True, is_open := True\<rparr>) else (ERROR, w\<lparr>enabled := False\<rparr>))"

text \<open>The \<open>std::getline\<close> loop of \<open>readLog\<close> and \<open>readSnapshot\<close>: \<open>cur\<close> is the line read
  so far. A last line without its newline is still a line; empty lines are dropped by
  the caller.\<close>

fun getlines :: "string \<Rightarrow> string \<Rightarrow> string list" where
  "getlines cur [] = (if cur = [] then [] else [cur])"
| "getlines cur (c # cs) =
     (if c = newline then cur # getlines [] cs else getlines (cur @ [c]) cs)"

definition read_commands :: "string \<Rightarrow> string list" where
  "read_commands text = filter (\<lambda>line. line \<noteq> []) (getlines [] text)"

definition readLog :: "WAL \<Rightarrow> string list" where
  "readLog w = read_commands (logFile w)"

section \<open>Mutations of the store (KVStore)\<close>

definition setWalEnabled :: "KVStore \<Rightarrow> bool \<Rightarrow> KVStore" where
  "setWalEnabled st b = st\<lparr>walEnabled := b\<rparr>"

text \<open>The test \<open>walEnabled && wal && wal->isEnabled()\<close> followed by a log call whose status
  is ignored.\<close>

definition wal_write :: "KVStore \<Rightarrow> string \<Rightarrow> io_outcome \<Rightarrow> KVStore" where
  "wal_write st line io =
     (case wal st of
        None \<Rightarrow> st
      | Some w \<Rightarrow> if walEnabled st \<and> enabled w then st\<lparr>wal := Some (snd (log_line w line io))\<rparr> else st)"

text \<open>\<open>KVStore::set\<close> (the name \<open>set\<close> is taken in HOL). \<open>now\<close> is the clock reading that
  stamps the version, \<open>rnow\<close> the later one inside \<open>applyRetention\<close>, \<open>io\<close> the outcome of
  the WAL write if one is made.\<close>

definition set_kv ::
  "KVStore \<Rightarrow> string \<Rightarrow> string \<Rightarrow> time_point \<Rightarrow> time_point \<Rightarrow> io_outcome \<Rightarrow> Status \<times> KVStore" where
  "set_kv st key val now rnow io =
     (let st1 = wal_write st (set_record key val now) io;
          st2 = st1\<lparr>store := (store st1)
                  (key \<mapsto> getHistory st1 key @ [\<lparr>timestamp = now, v_value = val\<rparr>])\<rparr>
      in (OK, applyRetention st2 key rnow))"

definition del :: "KVStore \<Rightarrow> string \<Rightarrow> io_outcome \<Rightarrow> Status \<times> KVStore" where
  "del st key io =
     (case store st key of
        Some versions \<Rightarrow>
          (let st1 = wal_write st (del_record key) io
           in (OK, st1\<lparr>store := (store st1)(key := None)\<rparr>))
      | None \<Rightarrow> (NOT_FOUND, st))"

definition policy_name :: "DecisionPolicy \<Rightarrow> string" where
  "policy_name policy =
     (case policy of
        DEV_FRIENDLY \<Rightarrow> ''DEV_FRIENDLY''
      | SAFE_DEFAULT \<Rightarrow> ''SAFE_DEFAULT''
      | STRICT \<Rightarrow> ''STRICT'')"

definition setDecisionPolicy :: "KVStore \<Rightarrow> DecisionPolicy \<Rightarrow> io_outcome \<Rightarrow> KVStore" where
  "setDecisionPolicy st policy io =
     wal_write (st\<lparr>decisionPolicy := policy\<rparr>) (policy_record (policy_name policy)) io"

text \<open>\<open>setRetentionPolicy\<close> applies the new policy to every key that has versions;
  \<open>rclk key\<close> is the clock reading inside \<open>applyRetention\<close> for that key. Keys are
  independent, so the iteration order of the hash map does not show.\<close>

definition setRetentionPolicy ::
  "KVStore \<Rightarrow> RetentionPolicy \<Rightarrow> (string \<Rightarrow> time_point) \<Rightarrow> KVStore" where
  "setRetentionPolicy st policy rclk =
     (let st1 = st\<lparr>retentionPolicy := policy\<rparr>
      in st1\<lparr>store := (\<lambda>key. store (applyRetention st1 key (rclk key)) key)\<rparr>)"

section \<open>Command parser (command_parser.cpp)\<close>

datatype CommandType =
  SET | GET | GETAT | DEL | HISTORY | SNAPSHOT | CONFIG | EXPLAIN | PROPOSE | GUARD | POLICY
  | EXIT | INVALID

record Command =
  cmd_type :: CommandType
  args :: "string list"

text \<open>The loop \<open>while (iss >> token)\<close> of \<open>tokenize\<close>: \<open>cur\<close> is the token read so far.\<close>

fun tokenize_from :: "string \<Rightarrow> string \<Rightarrow> string list" where
  "tokenize_from cur [] = (if cur = [] then [] else [cur])"
| "tokenize_from cur (c # cs) =
     (if isspace_c c
      then (if cur = [] then tokenize_from [] cs else cur # tokenize_from [] cs)
      else tokenize_from (cur @ [c]) cs)"

definition tokenize :: "string \<Rightarrow> string list" where
  "tokenize input = tokenize_from [] input"

definition getCommandType :: "string \<Rightarrow> CommandType" where
  "getCommandType cmd =
     (let upper = map toupper_c cmd
      in if upper = ''SET'' then SET
         else if upper = ''GET'' then GET
         else if upper = ''DEL'' then DEL
         else if upper = ''HISTORY'' then HISTORY
         else if upper = ''SNAPSHOT'' then SNAPSHOT
         else if upper = ''CONFIG'' then CONFIG
         else if upper = ''EXPLAIN'' then EXPLAIN
         else if upper = ''PROPOSE'' then PROPOSE
         else if upper = ''GUARD'' then GUARD
         else if upper = ''POLICY'' then POLICY
         else if upper = ''EXIT'' \<or> upper = ''QUIT'' then EXIT
         else INVALID)"

fun join_spaces :: "string list \<Rightarrow> string" where
  "join_spaces [] = []"
| "join_spaces [t] = t"
| "join_spaces (t # u # rest) = t @ '' '' @ join_spaces (u # rest)"

definition parse :: "string \<Rightarrow> Command" where
  "parse input =
     (let tokens = tokenize input
      in if tokens = [] then \<lparr>cmd_type = INVALID, args = []\<rparr>
         else if length tokens \<ge> 4 \<and> getCommandType (tokens ! 0) = GET
                 \<and> map toupper_c (tokens ! 2) = ''AT''
         then \<lparr>cmd_type = GETAT, args = [tokens ! 1, join_spaces (drop 3 tokens)]\<rparr>
         else if length tokens \<ge> 5 \<and> getCommandType (tokens ! 0) = EXPLAIN
                 \<and> map toupper_c (tokens ! 1) = ''GET''
                 \<and> map toupper_c (tokens ! 3) = ''AT''
         then \<lparr>cmd_type = EXPLAIN, args = [tokens ! 2, join_spaces (drop 4 tokens)]\<rparr>
         else \<lparr>cmd_type = getCommandType (tokens ! 0), args = tl tokens\<rparr>)"

section \<open>Recovery (\<open>main\<close>)\<close>

text \<open>
  \<open>iss >> word\<close> on a string stream whose unread text is \<open>s\<close>: the word read and the text
  left. The word is empty exactly when only white space was left; the text left is then
  empty, so every later extraction fails as well, as it does on the failed stream.
\<close>

definition read_token :: "string \<Rightarrow> string \<times> string" where
  "read_token s =
     (let s1 = dropWhile isspace_c s
      in (takeWhile (\<lambda>c. \<not> isspace_c c) s1, dropWhile (\<lambda>c. \<not> isspace_c c) s1))"

text \<open>\<open>iss >> timestampMs\<close> for a \<open>long long\<close>: the number, or \<open>None\<close> when the extraction
  fails (no digits, or a value outside 64 bits).\<close>

definition read_long_long :: "string \<Rightarrow> int option" where
  "read_long_long s =
     (case parse_decimal s of
        None \<Rightarrow> None
      | Some (v, rest) \<Rightarrow>
          if - 9223372036854775808 \<le> v \<and> v \<le> 9223372036854775807 then Some v else None)"

definition policy_of_name :: "string \<Rightarrow> DecisionPolicy option" where
  "policy_of_name policyName =
     (if policyName = ''DEV_FRIENDLY'' then Some DEV_FRIENDLY
      else if policyName = ''SAFE_DEFAULT'' then Some SAFE_DEFAULT
      else if policyName = ''STRICT'' then Some STRICT
      else None)"

text \<open>During replay \<open>walEnabled\<close> is false, so the mutators write no record; the I/O outcome
  handed to them is never looked at.\<close>

text \<open>Snapshot, first pass: one line.\<close>

definition snapshot_policy_line :: "KVStore \<Rightarrow> string \<Rightarrow> KVStore" where
  "snapshot_policy_line st cmdLine =
     (let cmd = parse cmdLine
      in if cmd_type cmd = POLICY \<and> length (args cmd) \<ge> 2
         then
           (if args cmd ! 0 = ''SET''
            then (case policy_of_name (args cmd ! 1) of
                    Some policy \<Rightarrow> setDecisionPolicy st policy IoOk
                  | None \<Rightarrow> st)
            else st)
         else st)"

text \<open>Snapshot, second pass: one line, stamped with \<open>snapshotTime\<close>.\<close>

definition snapshot_data_line :: "KVStore \<Rightarrow> time_point \<Rightarrow> time_point \<Rightarrow> string \<Rightarrow> KVStore" where
  "snapshot_data_line st snapshotTime rnow cmdLine =
     (let cmd = parse cmdLine
      in if cmd_type cmd = SET \<and> length (args cmd) \<ge> 2
         then snd (setAtTime st (args cmd ! 0) (args cmd ! 1) snapshotTime rnow)
         else st)"

text \<open>WAL, phase 1: one line.\<close>

definition replay_policy_line :: "KVStore \<Rightarrow> string \<Rightarrow> KVStore" where
  "replay_policy_line st cmdLine =
     (case read_token cmdLine of
        (cmdType, r1) \<Rightarrow>
          if cmdType = ''POLICY''
          then
            (case read_token r1 of
               (subCmd, r2) \<Rightarrow>
                 (case read_token r2 of
                    (policyName, r3) \<Rightarrow>
                      if subCmd = ''SET''
                      then (case policy_of_name policyName of
                              Some policy \<Rightarrow>
                                setDecisionPolicy (setWalEnabled st False) policy IoOk
                            | None \<Rightarrow> st)
                      else st))
          else st)"

text \<open>WAL, phase 2: one line. \<open>now\<close> is the clock reading taken for a line without a
  timestamp.\<close>

definition replay_data_line :: "KVStore \<Rightarrow> time_point \<Rightarrow> time_point \<Rightarrow> string \<Rightarrow> KVStore" where
  "replay_data_line st now rnow cmdLine =
     (case read_token cmdLine of
        (cmdType, r1) \<Rightarrow>
          if cmdType = ''SET''
          then
            (case read_token r1 of
               (key, r2) \<Rightarrow>
                 (case read_token r2 of
                    (val, r3) \<Rightarrow>
                      (case read_long_long r3 of
                         Some timestampMs \<Rightarrow>
                           snd (setAtTime st key val (from_epoch_ms timestampMs) rnow)
                       | None \<Rightarrow> snd (setAtTime st key val now rnow))))
          else if cmdType = ''DEL''
          then
            (case read_token r1 of
               (key, r2) \<Rightarrow> if key \<noteq> [] then snd (del st key IoOk) else st)
          else st)"

text \<open>The loops over the lines. \<open>clk i\<close> is the reading of \<open>now()\<close> while line \<open>i\<close> of the WAL
  is replayed, \<open>rclk i\<close> the reading inside \<open>applyRetention\<close> for line \<open>i\<close>.\<close>

fun snapshot_data ::
  "KVStore \<Rightarrow> time_point \<Rightarrow> (nat \<Rightarrow> time_point) \<Rightarrow> nat \<Rightarrow> string list \<Rightarrow> KVStore" where
  "snapshot_data st snapshotTime rclk i [] = st"
| "snapshot_data st snapshotTime rclk i (cmdLine # rest) =
     snapshot_data (snapshot_data_line st snapshotTime (rclk i) cmdLine) snapshotTime rclk (Suc i) rest"

fun replay_data ::
  "KVStore \<Rightarrow> (nat \<Rightarrow> time_point) \<Rightarrow> (nat \<Rightarrow> time_point) \<Rightarrow> nat \<Rightarrow> string list \<Rightarrow> KVStore" where
  "replay_data st clk rclk i [] = st"
| "replay_data st clk rclk i (cmdLine # rest) =
     replay_data (replay_data_line st (clk i) (rclk i) cmdLine) clk rclk (Suc i) rest"

text \<open>
  \<open>main\<close> up to the start of the command loop. \<open>init_ok\<close> is the outcome of
  \<open>wal->initialize()\<close>, \<open>snapshotText\<close> and \<open>walText\<close> are the contents of the snapshot and
  WAL files (an absent file reads as the empty text), \<open>snapshotTime\<close> is the clock reading
  taken before the snapshot is loaded; \<open>srclk\<close> gives the readings inside
  \<open>applyRetention\<close> for the snapshot lines.
\<close>

definition main_recovery ::
  "bool \<Rightarrow> string \<Rightarrow> string \<Rightarrow> time_point \<Rightarrow> (nat \<Rightarrow> time_point) \<Rightarrow> (nat \<Rightarrow> time_point)
     \<Rightarrow> (nat \<Rightarrow> time_point) \<Rightarrow> KVStore" where
  "main_recovery init_ok snapshotText walText snapshotTime srclk clk rclk =
     (let w = snd (initialize \<lparr>enabled = False, is_open = False, logFile = walText\<rparr> init_ok);
          kvstore = KVStore_new (Some w)
      in if init_ok
         then
           (let snapshotCommands = read_commands snapshotText;
                st1 = (if snapshotCommands \<noteq> []
                       then setWalEnabled
                              (snapshot_data
                                 (foldl snapshot_policy_line (setWalEnabled kvstore False)
                                    snapshotCommands)
                                 snapshotTime srclk 0 snapshotCommands)
                              True
                       else kvstore);
                commands = readLog w
            in if commands \<noteq> []
               then setWalEnabled
                      (replay_data
                         (foldl replay_policy_line (setWalEnabled st1 False) commands)
                         clk rclk 0 commands)
                      True
               else st1)
         else kvstore)"

section \<open>Histories of operations\<close>

text \<open>A mutation as the engine receives it, with the clock readings it takes:
  \<open>Set key value now rnow\<close>, \<open>Del key\<close>, \<open>SetDecisionPolicy policy\<close>.\<close>

datatype operation =
    Set string string time_point time_point
  | Del string
  | SetDecisionPolicy DecisionPolicy

fun apply_operation :: "KVStore \<Rightarrow> operation \<Rightarrow> KVStore" where
  "apply_operation st (Set key val now rnow) = snd (set_kv st key val now rnow IoOk)"
| "apply_operation st (Del key) = snd (del st key IoOk)"
| "apply_operation st (SetDecisionPolicy policy) = setDecisionPolicy st policy IoOk"

text \<open>The engine \<open>main\<close> starts on empty files, and the state after a list of operations
  whose WAL writes all succeed.\<close>

definition fresh_engine :: KVStore where
  "fresh_engine = KVStore_new (Some \<lparr>enabled = True, is_open = True, logFile = []\<rparr>)"

definition run :: "operation list \<Rightarrow> KVStore" where
  "run ops = foldl apply_operation fresh_engine ops"

definition wal_text :: "KVStore \<Rightarrow> string" where
  "wal_text st = (case wal st of Some w \<Rightarrow> logFile w | None \<Rightarrow> [])"

text \<open>Keys and values the WAL format can carry: not empty and free of white space.\<close>

definition wf_word :: "string \<Rightarrow> bool" where
  "wf_word s = (s \<noteq> [] \<and> filter isspace_c s = [])"

text \<open>The tick count of a \<open>time_point\<close> is a 64-bit signed integer; a clock reading of
  an operation is one.\<close>

definition int64 :: "int \<Rightarrow> bool" where
  "int64 i = (- 9223372036854775808 \<le> i \<and> i \<le> 9223372036854775807)"

fun wf_operation :: "operation \<Rightarrow> bool" where
  "wf_operation (Set key val now rnow) = (wf_word key \<and> wf_word val \<and> int64 now)"
| "wf_operation (Del key) = True"
| "wf_operation (SetDecisionPolicy policy) = True"

text \<open>A timestamp cut to whole milliseconds, as it comes back from the WAL.\<close>

definition truncate_ms :: "Version \<Rightarrow> Version" where
  "truncate_ms v = v\<lparr>timestamp := from_epoch_ms (epoch_ms (timestamp v))\<rparr>"

fun whole_ms :: "operation \<Rightarrow> bool" where
  "whole_ms (Set key val now rnow) = (from_epoch_ms (epoch_ms now) = now)"
| "whole_ms (Del key) = True"
| "whole_ms (SetDecisionPolicy policy) = True"

definition truncate_store :: "(string \<rightharpoonup> Version list) \<Rightarrow> (string \<rightharpoonup> Version list)" where
  "truncate_store m = (\<lambda>key. map_option (map truncate_ms) (m key))"

text \<open>The invariant that ties an engine state reached from \<open>fresh_engine\<close> to the lines its
  WAL holds: the file is those lines, each ended by a newline; replaying their policy
  records gives the policy of the state, and replaying their data records into an empty
  store gives the store of the state with every timestamp cut to whole milliseconds.\<close>

definition logged_by :: "string list \<Rightarrow> KVStore \<Rightarrow> bool" where
  "logged_by lines st \<longleftrightarrow>
     wal st = Some \<lparr>enabled = True, is_open = True,
                    logFile = concat (map (\<lambda>l. l @ [newline]) lines)\<rparr>
     \<and> walEnabled st
     \<and> retentionPolicy st = RetentionPolicy_default
     \<and> guards st = []
     \<and> (\<forall>l \<in> set lines. l \<noteq> [] \<and> newline \<notin> set l)
     \<and> (\<forall>key. store st key \<noteq> None \<longrightarrow> wf_word key)
     \<and> (\<forall>s. decisionPolicy s = SAFE_DEFAULT \<longrightarrow>
            decisionPolicy (foldl replay_policy_line s lines) = decisionPolicy st)
     \<and> (\<forall>s clk rclk i. store s = Map.empty \<and> mode (retentionPolicy s) = FULL \<longrightarrow>
            store (replay_data s clk rclk i lines) = truncate_store (store st))"

section \<open>Example states\<close>

definition price_store :: KVStore where
  "price_store = (KVStore_new None)\<lparr>store := [''price'' \<mapsto>
      [\<lparr>timestamp = 10, v_value = ''100''\<rparr>, \<lparr>timestamp = 20, v_value = ''150''\<rparr>,
       \<lparr>timestamp = 30, v_value = ''200''\<rparr>]]\<rparr>"

definition lastn_store :: KVStore where
  "lastn_store = (KVStore_new None)\<lparr>
      store := [''x'' \<mapsto>
        [\<lparr>timestamp = 1, v_value = ''a''\<rparr>, \<lparr>timestamp = 2, v_value = ''b''\<rparr>,
         \<lparr>timestamp = 3, v_value = ''c''\<rparr>, \<lparr>timestamp = 4, v_value = ''d''\<rparr>]],
      retentionPolicy := \<lparr>mode = LAST_N, count = 2, seconds = 0\<rparr>\<rparr>"

definition counter_offer_eval :: WriteEvaluation where
  "counter_offer_eval =
     \<lparr>result = COUNTER_OFFER, eval_key = ''score'', proposedValue = ''150'',
      reason = ''Value 150 outside acceptable range [0, 100]'',
      alternatives = [\<lparr>alt_value = ''100'', explanation = ''Maximum allowed value''\<rparr>],
      triggeredGuards = [''scoreG''], appliedPolicy = SAFE_DEFAULT, policyReasoning = []\<rparr>"

definition lenG :: Guard where
  "lenG = \<lparr>name = ''lenG'', pattern = ''*'', g_enabled = True, kind = LengthGuard 5 10\<rparr>"

definition rangeG :: Guard where
  "rangeG = \<lparr>name = ''rangeG'', pattern = ''sc*'', g_enabled = True, kind = RangeIntGuard 0 100\<rparr>"

definition lateG :: Guard where
  "lateG = \<lparr>name = ''lateG'', pattern = ''score'', g_enabled = True, kind = LengthGuard 1 2\<rparr>"

definition statusG :: Guard where
  "statusG = \<lparr>name = ''statusG'', pattern = ''status*'', g_enabled = True,
     kind = EnumGuard [''active'', ''inactive'', ''pending'']\<rparr>"

definition guarded_store :: KVStore where
  "guarded_store =
     addGuard (addGuard (addGuard (addGuard (KVStore_new None) lenG) rangeG) lateG) statusG"

definition busy_store :: KVStore where
  "busy_store = guarded_store\<lparr>store := store price_store, walEnabled := False\<rparr>"

definition open_wal :: WAL where
  "open_wal = \<lparr>enabled = True, is_open = True, logFile = []\<rparr>"

definition open_engine :: KVStore where
  "open_engine = KVStore_new (Some open_wal)"

definition zero_clock :: "nat \<Rightarrow> time_point" where
  "zero_clock i = 0"

definition late_clock :: "nat \<Rightarrow> time_point" where
  "late_clock i = 9000000"

definition recovered_after_snapshot :: KVStore where
  "recovered_after_snapshot =
     main_recovery True ''POLICY SET SAFE_DEFAULT\<newline>SET k v1\<newline>''
       ''SET k v2 1000\<newline>'' 2000000000
       zero_clock zero_clock zero_clock"

definition same_ms_ops :: "operation list" where
  "same_ms_ops = [Set ''k'' ''a'' 1000001 0, Set ''k'' ''b'' 1000002 0]"

definition empty_value_ops :: "operation list" where
  "empty_value_ops = [Set ''k'' [] 5000000 0]"

definition restart_ops :: "operation list" where
  "restart_ops =
     [SetDecisionPolicy STRICT, Set ''k'' ''v1'' 1000000 0, Set ''k'' ''v2'' 2000000 0,
      Set ''j'' ''x'' 2000000 0, Del ''j'']"

section \<open>Properties of the temporal store\<close>

lemma getAtTime_loop_takeWhile:
  "getAtTime_loop T vs res =
     (case takeWhile (\<lambda>v. timestamp v \<le> T) vs of [] \<Rightarrow> res | ws \<Rightarrow> Some (v_value (last ws)))"
  by (induction vs arbitrary: res) (auto split: list.splits)

lemma sorted_takeWhile_filter:
  "sorted (map timestamp vs) \<Longrightarrow>
     takeWhile (\<lambda>v. timestamp v \<le> T) vs = filter (\<lambda>v. timestamp v \<le> (T::int)) vs"
proof (induction vs)
  case Nil
  then show ?case by simp
next
  case (Cons v vs)
  show ?case
  proof (cases "timestamp v \<le> T")
    case True
    with Cons show ?thesis by simp
  next
    case False
    with Cons.prems have "\<forall>w \<in> set vs. \<not> timestamp w \<le> T" by auto
    then have "filter (\<lambda>v. timestamp v \<le> T) vs = []" by (simp add: filter_empty_conv)
    with False show ?thesis by simp
  qed
qed

text \<open>
  Claim C2. When the timestamps of a key's version list are non-decreasing, \<open>getAtTime\<close>
  returns the value of the last version whose timestamp is at most the query timestamp,
  and nothing when no version qualifies (an absent key has the empty history).
\<close>

theorem getAtTime_latest:
  assumes "sorted (map timestamp (getHistory st key))"
  shows "getAtTime st key T =
           (case filter (\<lambda>v. timestamp v \<le> T) (getHistory st key) of
              [] \<Rightarrow> None
            | ws \<Rightarrow> Some (v_value (last ws)))"
proof (cases "store st key")
  case None
  then show ?thesis by (simp add: getAtTime_def getHistory_def)
next
  case (Some versions)
  with assms have "sorted (map timestamp versions)" by (simp add: getHistory_def)
  then have "takeWhile (\<lambda>v. timestamp v \<le> T) versions = filter (\<lambda>v. timestamp v \<le> T) versions"
    by (rule sorted_takeWhile_filter)
  with Some show ?thesis
    by (simp add: getAtTime_def getHistory_def getAtTime_loop_takeWhile)
qed

theorem getAtTime_latest_witness:
  "sorted (map timestamp (getHistory price_store ''price''))
   \<and> getAtTime price_store ''price'' 25 = Some ''150''
   \<and> getAtTime price_store ''price'' 5 = None
   \<and> getAtTime price_store ''absent'' 25 = None"
  using getAtTime_latest [of price_store "''price''" 25]
        getAtTime_latest [of price_store "''price''" 5]
        getAtTime_latest [of price_store "''absent''" 25]
  by (simp add: price_store_def KVStore_new_def getHistory_def)

lemma explain_loop_fst:
  "map_option (\<lambda>j. v_value (versions ! j)) (fst (explain_loop versions T rest i sel skipped))
     = getAtTime_loop T rest (map_option (\<lambda>j. v_value (versions ! j)) sel)"
  if "versions = pre @ rest" "i = length pre"
  using that
proof (induction rest arbitrary: i sel skipped pre)
  case Nil
  then show ?case by simp
next
  case (Cons v rest)
  have "versions = (pre @ [v]) @ rest" "Suc i = length (pre @ [v])" using Cons.prems by simp_all
  from Cons.IH[OF this] Cons.prems show ?case by (simp add: nth_append)
qed

lemma explain_loop_skipped:
  "\<forall>v \<in> set (snd (explain_loop versions T rest i sel skipped)). timestamp v \<le> T"
  if "\<forall>v \<in> set skipped. timestamp v \<le> T" "\<forall>j. sel = Some j \<longrightarrow> timestamp (versions ! j) \<le> T"
     "versions = pre @ rest" "i = length pre"
  using that
proof (induction rest arbitrary: i sel skipped pre)
  case Nil
  then show ?case by simp
next
  case (Cons v rest)
  show ?case
  proof (cases "timestamp v \<le> T")
    case False
    with Cons.prems show ?thesis by simp
  next
    case True
    have a: "versions = (pre @ [v]) @ rest" "Suc i = length (pre @ [v])" using Cons.prems by simp_all
    have b: "\<forall>w \<in> set (case sel of Some j \<Rightarrow> skipped @ [versions ! j] | None \<Rightarrow> skipped). timestamp w \<le> T"
      using Cons.prems(1,2) by (auto split: option.splits)
    have c: "\<forall>j. Some i = Some j \<longrightarrow> timestamp (versions ! j) \<le> T"
      using Cons.prems(3,4) True by (simp add: nth_append)
    from Cons.IH[OF b c a] True show ?thesis by simp
  qed
qed

text \<open>
  Claim C9. \<open>explainGetAtTime\<close> agrees with \<open>getAtTime\<close>: \<open>found\<close> holds exactly when
  \<open>getAtTime\<close> returns a value, the selected version then carries that value,
  \<open>totalVersions\<close> is the length of the history, and every skipped version has a timestamp
  at most the query timestamp.
\<close>

theorem explainGetAtTime_consistent:
  "(found (explainGetAtTime st key T) \<longleftrightarrow> getAtTime st key T \<noteq> None)
   \<and> (found (explainGetAtTime st key T) \<longrightarrow>
        map_option v_value (selectedVersion (explainGetAtTime st key T)) = getAtTime st key T)
   \<and> totalVersions (explainGetAtTime st key T) = length (getHistory st key)
   \<and> (\<forall>v \<in> set (skippedVersions (explainGetAtTime st key T)). timestamp v \<le> T)"
proof (cases "store st key")
  case None
  then show ?thesis by (simp add: explainGetAtTime_def getAtTime_def getHistory_def)
next
  case (Some versions)
  show ?thesis
  proof (cases "versions = []")
    case True
    with Some show ?thesis by (simp add: explainGetAtTime_def getAtTime_def getHistory_def)
  next
    case False
    obtain sel skipped where e: "explain_loop versions T versions 0 None [] = (sel, skipped)"
      by (cases "explain_loop versions T versions 0 None []") 
    have f: "getAtTime_loop T versions None = map_option (\<lambda>j. v_value (versions ! j)) sel"
      using explain_loop_fst[of versions "[]" versions 0 T None "[]"] e by simp
    have s: "\<forall>v \<in> set skipped. timestamp v \<le> T"
      using explain_loop_skipped[of "[]" T None versions "[]" versions 0] e by simp
    show ?thesis
    proof (cases sel)
      case None
      with Some False e f s show ?thesis
        by (simp add: explainGetAtTime_def getAtTime_def getHistory_def)
    next
      case (Some i)
      with \<open>store st key = Some versions\<close> False e f s show ?thesis
        by (simp add: explainGetAtTime_def getAtTime_def getHistory_def)
    qed
  qed
qed

theorem explainGetAtTime_consistent_witness:
  "found (explainGetAtTime price_store ''price'' 25)
   \<and> getAtTime price_store ''price'' 25 = Some ''150''
   \<and> map_option v_value (selectedVersion (explainGetAtTime price_store ''price'' 25)) = Some ''150''
   \<and> totalVersions (explainGetAtTime price_store ''price'' 25) = 3
   \<and> skippedVersions (explainGetAtTime price_store ''price'' 25)
       = [\<lparr>timestamp = 10, v_value = ''100''\<rparr>]
   \<and> timestamp (hd (skippedVersions (explainGetAtTime price_store ''price'' 25))) \<le> 25"
proof -
  have h: "getHistory price_store ''price'' =
      [\<lparr>timestamp = 10, v_value = ''100''\<rparr>, \<lparr>timestamp = 20, v_value = ''150''\<rparr>,
       \<lparr>timestamp = 30, v_value = ''200''\<rparr>]"
    by (simp add: price_store_def getHistory_def)
  have g: "getAtTime price_store ''price'' 25 = Some ''150''"
    by (simp add: price_store_def getAtTime_def)
  have s: "skippedVersions (explainGetAtTime price_store ''price'' 25)
       = [\<lparr>timestamp = 10, v_value = ''100''\<rparr>]"
    by (simp add: price_store_def explainGetAtTime_def)
  from explainGetAtTime_consistent [of price_store "''price''" 25] h g s show ?thesis by simp
qed

text \<open>
  Claim C8. Under \<open>LAST_N\<close> with \<open>n \<ge> 1\<close>, retention on a key keeps the last
  \<open>min s n\<close> versions of its \<open>s\<close> versions in their order: the list is unchanged when
  \<open>s \<le> n\<close>, and otherwise loses exactly its oldest \<open>s - n\<close> elements. Other keys are
  untouched.
\<close>

theorem applyRetention_LAST_N:
  assumes "mode (retentionPolicy st) = LAST_N"
    and "count (retentionPolicy st) = int n"
    and "1 \<le> n"
  shows "getHistory (applyRetention st key now) key
           = drop (length (getHistory st key) - n) (getHistory st key)
         \<and> (length (getHistory st key) \<le> n \<longrightarrow>
              getHistory (applyRetention st key now) key = getHistory st key)
         \<and> length (getHistory (applyRetention st key now) key) = min (length (getHistory st key)) n
         \<and> (\<forall>k. k \<noteq> key \<longrightarrow> getHistory (applyRetention st key now) k = getHistory st k)"
proof (cases "store st key")
  case None
  then show ?thesis by (simp add: applyRetention_def getHistory_def)
next
  case (Some versions)
  with assms show ?thesis
    by (auto simp add: applyRetention_def getHistory_def)
qed

theorem applyRetention_LAST_N_witness:
  "mode (retentionPolicy lastn_store) = LAST_N
   \<and> count (retentionPolicy lastn_store) = int 2
   \<and> (1::nat) \<le> 2
   \<and> getHistory (applyRetention lastn_store ''x'' 0) ''x''
       = [\<lparr>timestamp = 3, v_value = ''c''\<rparr>, \<lparr>timestamp = 4, v_value = ''d''\<rparr>]
   \<and> getHistory (applyRetention lastn_store ''x'' 0) ''y'' = getHistory lastn_store ''y''"
proof -
  have a: "mode (retentionPolicy lastn_store) = LAST_N"
    and b: "count (retentionPolicy lastn_store) = int 2"
    and c: "(1::nat) \<le> 2"
    by (simp_all add: lastn_store_def)
  have h: "getHistory lastn_store ''x'' =
      [\<lparr>timestamp = 1, v_value = ''a''\<rparr>, \<lparr>timestamp = 2, v_value = ''b''\<rparr>,
         \<lparr>timestamp = 3, v_value = ''c''\<rparr>, \<lparr>timestamp = 4, v_value = ''d''\<rparr>]"
    by (simp add: lastn_store_def getHistory_def)
  from applyRetention_LAST_N [OF a b c, of "''x''" 0] a b c h show ?thesis by simp
qed

text \<open>
  Claim C4. Under \<open>SAFE_DEFAULT\<close> the final verdict is \<open>REJECT\<close> exactly when the simulation
  gave \<open>REJECT\<close>, or \<open>COUNTER_OFFER\<close> with no alternatives; a \<open>COUNTER_OFFER\<close> with
  alternatives stays one and keeps its alternatives.
\<close>

theorem applyDecisionPolicy_SAFE_DEFAULT:
  assumes "decisionPolicy st = SAFE_DEFAULT"
  shows "(result (applyDecisionPolicy st ev) = REJECT \<longleftrightarrow>
            result ev = REJECT \<or> (result ev = COUNTER_OFFER \<and> alternatives ev = []))
         \<and> (result ev = COUNTER_OFFER \<and> alternatives ev \<noteq> [] \<longrightarrow>
              result (applyDecisionPolicy st ev) = COUNTER_OFFER
              \<and> alternatives (applyDecisionPolicy st ev) = alternatives ev)"
  using assms by (cases "result ev") (simp_all add: applyDecisionPolicy_def Let_def)

theorem applyDecisionPolicy_SAFE_DEFAULT_witness:
  "decisionPolicy (KVStore_new None) = SAFE_DEFAULT
   \<and> result counter_offer_eval = COUNTER_OFFER \<and> alternatives counter_offer_eval \<noteq> []
   \<and> result (applyDecisionPolicy (KVStore_new None) counter_offer_eval) = COUNTER_OFFER
   \<and> alternatives (applyDecisionPolicy (KVStore_new None) counter_offer_eval)
       = alternatives counter_offer_eval"
proof -
  have p: "decisionPolicy (KVStore_new None) = SAFE_DEFAULT" by (simp add: KVStore_new_def)
  have q: "result counter_offer_eval = COUNTER_OFFER \<and> alternatives counter_offer_eval \<noteq> []"
    by (simp add: counter_offer_eval_def)
  from applyDecisionPolicy_SAFE_DEFAULT [OF p, of counter_offer_eval] p q show ?thesis by blast
qed

section \<open>Properties of write evaluation\<close>

lemmas guard_defs = lenG_def rangeG_def lateG_def statusG_def

lemmas eval_defs = guarded_store_def addGuard_def KVStore_new_def simulateWrite_def getGuardsForKey_def
     appliesTo_def WriteEvaluation_new_def evaluate_def stoi_def parse_decimal_def
     isspace_c_def isdigit_c_def Let_def generateAlternatives_def

lemma simulate_loop_reject:
  assumes "fst (evaluate g v) = REJECT"
    and "\<forall>h \<in> set pre. fst (evaluate h v) \<noteq> REJECT"
  shows "simulate_loop v (pre @ g # post) ev acc coll =
           ev\<lparr>result := REJECT,
              triggeredGuards := triggeredGuards ev
                @ map name (filter (\<lambda>h. fst (evaluate h v) = COUNTER_OFFER) pre) @ [name g],
              reason := snd (evaluate g v)\<rparr>"
  using assms
proof (induction pre arbitrary: ev acc coll)
  case Nil
  obtain r rs where e: "evaluate g v = (r, rs)" by (cases "evaluate g v")
  with Nil show ?case by simp
next
  case (Cons h pre)
  obtain r rs where e: "evaluate h v = (r, rs)" by (cases "evaluate h v")
  from Cons.prems e have nr: "r \<noteq> REJECT" by simp
  have ih: "simulate_loop v (pre @ g # post) ev' acc' coll' =
           ev'\<lparr>result := REJECT,
              triggeredGuards := triggeredGuards ev'
                @ map name (filter (\<lambda>h. fst (evaluate h v) = COUNTER_OFFER) pre) @ [name g],
              reason := snd (evaluate g v)\<rparr>" for ev' acc' coll'
    using Cons.IH Cons.prems by simp
  show ?case
  proof (cases "r = COUNTER_OFFER")
    case True
    with e ih show ?thesis by simp
  next
    case False
    with e nr ih show ?thesis by simp
  qed
qed

text \<open>
  Claim C5 (as amended). When the first applicable guard that evaluates to \<open>REJECT\<close> is
  \<open>g\<close>, the simulation is \<open>REJECT\<close> with the reason of \<open>g\<close> and no alternatives, and it
  is the same whatever guards are registered after \<open>g\<close>. \<open>triggeredGuards\<close> holds the names
  of the earlier guards that gave \<open>COUNTER_OFFER\<close>, in order, and then the name of \<open>g\<close>; it
  is the name of \<open>g\<close> alone when every earlier guard accepted.
\<close>

theorem simulateWrite_reject:
  assumes "getGuardsForKey st key = pre @ g # post"
    and "fst (evaluate g v) = REJECT"
    and "\<forall>h \<in> set pre. fst (evaluate h v) \<noteq> REJECT"
  shows "result (simulateWrite st key v) = REJECT
         \<and> reason (simulateWrite st key v) = snd (evaluate g v)
         \<and> alternatives (simulateWrite st key v) = []
         \<and> triggeredGuards (simulateWrite st key v)
             = map name (filter (\<lambda>h. fst (evaluate h v) = COUNTER_OFFER) pre) @ [name g]
         \<and> ((\<forall>h \<in> set pre. fst (evaluate h v) = ACCEPT) \<longrightarrow>
              triggeredGuards (simulateWrite st key v) = [name g])
         \<and> (\<forall>st' post'. getGuardsForKey st' key = pre @ g # post' \<longrightarrow>
              simulateWrite st' key v = simulateWrite st key v)"
proof -
  have eq: "simulateWrite s key v =
          (WriteEvaluation_new\<lparr>eval_key := key, proposedValue := v\<rparr>)
            \<lparr>result := REJECT,
             triggeredGuards := map name (filter (\<lambda>h. fst (evaluate h v) = COUNTER_OFFER) pre) @ [name g],
             reason := snd (evaluate g v)\<rparr>"
    if "getGuardsForKey s key = pre @ g # p" for s p
    using that simulate_loop_reject [OF assms(2,3)]
    by (simp add: simulateWrite_def WriteEvaluation_new_def)
  have none: "filter (\<lambda>h. fst (evaluate h v) = COUNTER_OFFER) pre = []"
    if "\<forall>h \<in> set pre. fst (evaluate h v) = ACCEPT"
    using that by (simp add: filter_empty_conv)
  show ?thesis
    using eq [OF assms(1)] eq none by (simp add: WriteEvaluation_new_def)
qed

text \<open>
  Claim C5 as stated fails: with a length guard that gives \<open>COUNTER_OFFER\<close> registered
  before a range guard that gives \<open>REJECT\<close>, \<open>triggeredGuards\<close> holds both names.
\<close>

theorem simulateWrite_reject_counterexample:
  "getGuardsForKey guarded_store ''score'' = [lenG, rangeG, lateG]
   \<and> fst (evaluate lenG ''abc'') = COUNTER_OFFER
   \<and> fst (evaluate rangeG ''abc'') = REJECT
   \<and> result (simulateWrite guarded_store ''score'' ''abc'') = REJECT
   \<and> triggeredGuards (simulateWrite guarded_store ''score'' ''abc'') = [''lenG'', ''rangeG'']
   \<and> triggeredGuards (simulateWrite guarded_store ''score'' ''abc'') \<noteq> [name rangeG]"
  by (simp add: eval_defs guard_defs)

text \<open>
  The amended claim C5 at the same guard set: a third guard is registered after the
  rejecting one.
\<close>

theorem simulateWrite_reject_witness:
  "getGuardsForKey guarded_store ''score'' = [lenG] @ rangeG # [lateG]
   \<and> fst (evaluate rangeG ''abc'') = REJECT
   \<and> fst (evaluate lenG ''abc'') \<noteq> REJECT
   \<and> result (simulateWrite guarded_store ''score'' ''abc'') = REJECT
   \<and> reason (simulateWrite guarded_store ''score'' ''abc'') = ''Value is not a valid integer''
   \<and> alternatives (simulateWrite guarded_store ''score'' ''abc'') = []
   \<and> triggeredGuards (simulateWrite guarded_store ''score'' ''abc'') = [''lenG'', ''rangeG'']"
proof -
  have a: "getGuardsForKey guarded_store ''score'' = [lenG] @ rangeG # [lateG]"
    by (simp add: eval_defs guard_defs)
  have b: "fst (evaluate rangeG ''abc'') = REJECT"
    by (simp add: eval_defs guard_defs)
  have c: "\<forall>h \<in> set [lenG]. fst (evaluate h ''abc'') \<noteq> REJECT"
    by (simp add: eval_defs guard_defs)
  have d: "snd (evaluate rangeG ''abc'') = ''Value is not a valid integer''"
    by (simp add: eval_defs guard_defs)
  have e: "fst (evaluate lenG ''abc'') = COUNTER_OFFER"
    by (simp add: eval_defs guard_defs)
  have t: "result (simulateWrite guarded_store ''score'' ''abc'') = REJECT
         \<and> reason (simulateWrite guarded_store ''score'' ''abc'') = snd (evaluate rangeG ''abc'')
         \<and> alternatives (simulateWrite guarded_store ''score'' ''abc'') = []
         \<and> triggeredGuards (simulateWrite guarded_store ''score'' ''abc'')
             = map name (filter (\<lambda>h. fst (evaluate h ''abc'') = COUNTER_OFFER) [lenG]) @ [name rangeG]"
    using simulateWrite_reject [OF a b c] by blast
  have n: "name lenG = ''lenG''" "name rangeG = ''rangeG''"
    by (simp_all add: lenG_def rangeG_def)
  from t a b d e n show ?thesis by simp
qed

lemma collect_alternatives_nonempty:
  "collected \<noteq> [] \<or> guardAlts \<noteq> [] \<Longrightarrow> collect_alternatives collected guardAlts \<noteq> []"
proof (induction guardAlts arbitrary: collected)
  case Nil
  then show ?case by simp
next
  case (Cons alt guardAlts)
  have "(if alt_value alt \<in> alt_value ` set collected then collected else collected @ [alt]) \<noteq> []"
    by auto
  then show ?case using Cons.IH by simp
qed

lemma simulate_loop_no_reject_result:
  assumes "\<forall>h \<in> set gs. fst (evaluate h v) \<noteq> REJECT"
  shows "result (simulate_loop v gs ev acc coll) =
           (if acc \<and> (\<forall>h \<in> set gs. fst (evaluate h v) = ACCEPT) then result ev else COUNTER_OFFER)"
  using assms
proof (induction gs arbitrary: ev acc coll)
  case Nil
  then show ?case by simp
next
  case (Cons h gs)
  obtain r rs where e: "evaluate h v = (r, rs)" by (cases "evaluate h v")
  from Cons.prems e have nr: "r \<noteq> REJECT" by simp
  have ih: "result (simulate_loop v gs ev' acc' coll') =
           (if acc' \<and> (\<forall>h \<in> set gs. fst (evaluate h v) = ACCEPT) then result ev' else COUNTER_OFFER)"
    for ev' acc' coll'
    using Cons.IH Cons.prems by simp
  show ?case
  proof (cases r)
    case ACCEPT
    with e ih show ?thesis by simp
  next
    case REJECT
    with nr show ?thesis by simp
  next
    case COUNTER_OFFER
    with e ih show ?thesis by simp
  qed
qed

lemma simulate_loop_no_reject_alternatives:
  assumes "\<forall>h \<in> set gs. fst (evaluate h v) \<noteq> REJECT"
    and "(\<not> acc \<and> coll \<noteq> [])
         \<or> (\<exists>h \<in> set gs. fst (evaluate h v) = COUNTER_OFFER \<and> generateAlternatives h v \<noteq> [])"
  shows "alternatives (simulate_loop v gs ev acc coll) \<noteq> []"
  using assms
proof (induction gs arbitrary: ev acc coll)
  case Nil
  then show ?case by simp
next
  case (Cons h gs)
  obtain r rs where e: "evaluate h v = (r, rs)" by (cases "evaluate h v")
  from Cons.prems e have nr: "r \<noteq> REJECT" by simp
  have nrs: "\<forall>h \<in> set gs. fst (evaluate h v) \<noteq> REJECT" using Cons.prems by simp
  show ?case
  proof (cases "r = COUNTER_OFFER")
    case True
    have "collect_alternatives coll (generateAlternatives h v) \<noteq> []
          \<or> (\<exists>h \<in> set gs. fst (evaluate h v) = COUNTER_OFFER \<and> generateAlternatives h v \<noteq> [])"
      using Cons.prems(2) e True collect_alternatives_nonempty [of coll "generateAlternatives h v"]
      by auto
    then have "(\<not> False \<and> collect_alternatives coll (generateAlternatives h v) \<noteq> [])
          \<or> (\<exists>h \<in> set gs. fst (evaluate h v) = COUNTER_OFFER \<and> generateAlternatives h v \<noteq> [])"
      by simp
    from Cons.IH [OF nrs this] e True show ?thesis by simp
  next
    case False
    with Cons.prems(2) e have "(\<not> acc \<and> coll \<noteq> [])
         \<or> (\<exists>h \<in> set gs. fst (evaluate h v) = COUNTER_OFFER \<and> generateAlternatives h v \<noteq> [])"
      by auto
    from Cons.IH [OF nrs this] e False nr show ?thesis by simp
  qed
qed

lemma enum_evaluate:
  "kind g = EnumGuard allowed \<Longrightarrow>
     fst (evaluate g v) = (if v \<in> set allowed then ACCEPT else COUNTER_OFFER)"
  by (simp add: evaluate_def)

lemma enum_generateAlternatives_nonempty:
  assumes "kind g = EnumGuard allowed" and "allowed \<noteq> []"
  shows "generateAlternatives g v \<noteq> []"
proof -
  from assms(2) have "take (min 3 (length allowed)) allowed \<noteq> []"
    by (cases allowed) simp_all
  with assms(1) show ?thesis
    by (simp add: generateAlternatives_def Let_def)
qed

text \<open>
  Claim C10. An Enum guard with a non-empty allowed list gives \<open>COUNTER_OFFER\<close> on a value
  outside the list, and \<open>generateAlternatives\<close> then returns at least one alternative.
  Hence, under \<open>SAFE_DEFAULT\<close>, a proposal whose violated guards are all Enum guards (every
  other applicable guard accepts) and that violates such a guard ends as \<open>COUNTER_OFFER\<close>
  with alternatives, never as \<open>REJECT\<close>.
\<close>

theorem enum_violation_counter_offer:
  assumes "kind g = EnumGuard allowed" and "allowed \<noteq> []" and "v \<notin> set allowed"
  shows "fst (evaluate g v) = COUNTER_OFFER
         \<and> generateAlternatives g v \<noteq> []
         \<and> (\<forall>st key.
               decisionPolicy st = SAFE_DEFAULT
               \<and> g \<in> set (getGuardsForKey st key)
               \<and> (\<forall>h \<in> set (getGuardsForKey st key).
                     fst (evaluate h v) = ACCEPT \<or> (\<exists>a. kind h = EnumGuard a))
               \<longrightarrow> result (fst (proposeSet st key v)) = COUNTER_OFFER
                   \<and> alternatives (fst (proposeSet st key v)) \<noteq> [])"
proof -
  have co: "fst (evaluate g v) = COUNTER_OFFER"
    using assms(1,3) by (simp add: enum_evaluate)
  have ne: "generateAlternatives g v \<noteq> []"
    using assms(1,2) by (rule enum_generateAlternatives_nonempty)
  have verdict: "result (fst (proposeSet st key v)) = COUNTER_OFFER
              \<and> alternatives (fst (proposeSet st key v)) \<noteq> []"
    if p: "decisionPolicy st = SAFE_DEFAULT"
      and m: "g \<in> set (getGuardsForKey st key)"
      and enum_only: "\<forall>h \<in> set (getGuardsForKey st key).
                   fst (evaluate h v) = ACCEPT \<or> (\<exists>a. kind h = EnumGuard a)"
    for st key
  proof -
    let ?gs = "getGuardsForKey st key"
    let ?ev0 = "WriteEvaluation_new\<lparr>eval_key := key, proposedValue := v\<rparr>"
    have nrej: "\<forall>h \<in> set ?gs. fst (evaluate h v) \<noteq> REJECT"
    proof
      fix h assume "h \<in> set ?gs"
      with enum_only have "fst (evaluate h v) = ACCEPT \<or> (\<exists>a. kind h = EnumGuard a)" by blast
      then show "fst (evaluate h v) \<noteq> REJECT"
        by (auto simp add: enum_evaluate split: if_splits)
    qed
    from m have nonempty: "?gs \<noteq> []" by auto
    have sim: "simulateWrite st key v = simulate_loop v ?gs ?ev0 True []"
      using nonempty by (simp add: simulateWrite_def Let_def)
    have notall: "\<not> (\<forall>h \<in> set ?gs. fst (evaluate h v) = ACCEPT)"
    proof
      assume "\<forall>h \<in> set ?gs. fst (evaluate h v) = ACCEPT"
      with m have "fst (evaluate g v) = ACCEPT" by blast
      with co show False by simp
    qed
    have r: "result (simulateWrite st key v) = COUNTER_OFFER"
      using simulate_loop_no_reject_result [OF nrej, of ?ev0 True "[]"] notall sim by simp
    have "\<exists>h \<in> set ?gs. fst (evaluate h v) = COUNTER_OFFER \<and> generateAlternatives h v \<noteq> []"
      using m co ne by blast
    then have a: "alternatives (simulateWrite st key v) \<noteq> []"
      using simulate_loop_no_reject_alternatives [OF nrej, of True "[]" ?ev0] sim by simp
    from p r a show ?thesis
      by (simp add: proposeSet_def applyDecisionPolicy_def Let_def)
  qed
  from co ne verdict show ?thesis by blast
qed

text \<open>
  Claim C10 at the guard \<open>statusG\<close> and the value \<open>invalid\<close>.
\<close>

theorem enum_violation_counter_offer_witness:
  "kind statusG = EnumGuard [''active'', ''inactive'', ''pending'']
   \<and> ''invalid'' \<notin> set [''active'', ''inactive'', ''pending'']
   \<and> fst (evaluate statusG ''invalid'') = COUNTER_OFFER
   \<and> generateAlternatives statusG ''invalid'' \<noteq> []
   \<and> decisionPolicy guarded_store = SAFE_DEFAULT
   \<and> getGuardsForKey guarded_store ''status'' = [lenG, statusG]
   \<and> fst (evaluate lenG ''invalid'') = ACCEPT
   \<and> result (fst (proposeSet guarded_store ''status'' ''invalid'')) = COUNTER_OFFER
   \<and> alternatives (fst (proposeSet guarded_store ''status'' ''invalid'')) \<noteq> []"
proof -
  have k: "kind statusG = EnumGuard [''active'', ''inactive'', ''pending'']"
    by (simp add: statusG_def)
  have n: "[''active'', ''inactive'', ''pending''] \<noteq> ([] :: string list)" by simp
  have v: "''invalid'' \<notin> set [''active'', ''inactive'', ''pending'']" by simp
  have p: "decisionPolicy guarded_store = SAFE_DEFAULT"
    by (simp add: guarded_store_def addGuard_def KVStore_new_def)
  have gs: "getGuardsForKey guarded_store ''status'' = [lenG, statusG]"
    by (simp add: eval_defs guard_defs)
  have l: "fst (evaluate lenG ''invalid'') = ACCEPT"
    by (simp add: evaluate_def lenG_def)
  have enum_only: "\<forall>h \<in> set (getGuardsForKey guarded_store ''status'').
                fst (evaluate h ''invalid'') = ACCEPT \<or> (\<exists>a. kind h = EnumGuard a)"
    using gs l k by simp
  have m: "statusG \<in> set (getGuardsForKey guarded_store ''status'')" using gs by simp
  note t = enum_violation_counter_offer [OF k n v]
  note t1 = t [THEN conjunct1]
  note t2 = t [THEN conjunct2, THEN conjunct1]
  have t3: "result (fst (proposeSet guarded_store ''status'' ''invalid'')) = COUNTER_OFFER
     \<and> alternatives (fst (proposeSet guarded_store ''status'' ''invalid'')) \<noteq> []"
    by (rule t [THEN conjunct2, THEN conjunct2, THEN spec, THEN spec, THEN mp,
                OF conjI [OF p conjI [OF m enum_only]]])
  show ?thesis
    by (rule conjI [OF k conjI [OF v conjI [OF t1 conjI [OF t2 conjI [OF p conjI [OF gs
          conjI [OF l t3]]]]]]])
qed

text \<open>
  Claim C7. \<open>proposeSet\<close> returns the engine state it was given: version store, guard
  list, decision policy and WAL are unchanged. Its evaluation is a function of the guard
  list, the decision policy, the key and the value alone (two states that agree on the
  first two give the same evaluation), so proposing twice gives the same evaluation. No
  clock reading is among its inputs.
\<close>

theorem proposeSet_pure:
  "snd (proposeSet st key v) = st
   \<and> store (snd (proposeSet st key v)) = store st
   \<and> guards (snd (proposeSet st key v)) = guards st
   \<and> decisionPolicy (snd (proposeSet st key v)) = decisionPolicy st
   \<and> wal (snd (proposeSet st key v)) = wal st
   \<and> fst (proposeSet (snd (proposeSet st key v)) key v) = fst (proposeSet st key v)
   \<and> (\<forall>st'. guards st' = guards st \<and> decisionPolicy st' = decisionPolicy st \<longrightarrow>
         fst (proposeSet st' key v) = fst (proposeSet st key v))"
proof -
  have sim: "simulateWrite st' key v = simulateWrite st key v"
    if "guards st' = guards st" for st'
    using that by (simp add: simulateWrite_def getGuardsForKey_def)
  have pol: "applyDecisionPolicy st' ev = applyDecisionPolicy st ev"
    if "decisionPolicy st' = decisionPolicy st" for st' ev
    by (simp only: applyDecisionPolicy_def that)
  have "fst (proposeSet st' key v) = fst (proposeSet st key v)"
    if "guards st' = guards st \<and> decisionPolicy st' = decisionPolicy st" for st'
  proof -
    have "simulateWrite st' key v = simulateWrite st key v"
      by (rule sim [OF that [THEN conjunct1]])
    moreover have "applyDecisionPolicy st' (simulateWrite st key v)
             = applyDecisionPolicy st (simulateWrite st key v)"
      by (rule pol [OF that [THEN conjunct2]])
    ultimately show ?thesis by (simp add: proposeSet_def)
  qed
  then have indep: "\<forall>st'. guards st' = guards st \<and> decisionPolicy st' = decisionPolicy st \<longrightarrow>
         fst (proposeSet st' key v) = fst (proposeSet st key v)"
    by blast
  have same: "snd (proposeSet st key v) = st"
    by (simp add: proposeSet_def)
  show ?thesis
    unfolding same by (intro conjI refl indep)
qed

text \<open>
  Claim C7 at two states with the same guards and policy and different stores.
\<close>

theorem proposeSet_pure_witness:
  "guards busy_store = guards guarded_store
   \<and> decisionPolicy busy_store = decisionPolicy guarded_store
   \<and> store busy_store ''price'' \<noteq> store guarded_store ''price''
   \<and> fst (proposeSet busy_store ''status'' ''invalid'')
       = fst (proposeSet guarded_store ''status'' ''invalid'')
   \<and> snd (proposeSet busy_store ''status'' ''invalid'') = busy_store"
proof -
  have g: "guards busy_store = guards guarded_store"
    by (simp add: busy_store_def)
  have d: "decisionPolicy busy_store = decisionPolicy guarded_store"
    by (simp add: busy_store_def)
  have s: "store busy_store ''price'' \<noteq> store guarded_store ''price''"
    by (simp add: busy_store_def price_store_def guarded_store_def addGuard_def KVStore_new_def)
  note p = proposeSet_pure [of guarded_store "''status''" "''invalid''"]
  note q = proposeSet_pure [of busy_store "''status''" "''invalid''"]
  have e: "fst (proposeSet busy_store ''status'' ''invalid'')
       = fst (proposeSet guarded_store ''status'' ''invalid'')"
    by (rule p [THEN conjunct2, THEN conjunct2, THEN conjunct2, THEN conjunct2, THEN conjunct2,
                THEN conjunct2, THEN spec, THEN mp, OF conjI [OF g d]])
  show ?thesis
    by (rule conjI [OF g conjI [OF d conjI [OF s conjI [OF e q [THEN conjunct1]]]]])
qed

section \<open>Properties of the WAL writers\<close>

lemma log_line_enabled: "enabled (snd (log_line w line io)) = enabled w"
  by (cases io) (simp_all add: log_line_def)

lemma wal_write_frame:
  "store (wal_write st line io) = store st
   \<and> retentionPolicy (wal_write st line io) = retentionPolicy st
   \<and> decisionPolicy (wal_write st line io) = decisionPolicy st
   \<and> guards (wal_write st line io) = guards st
   \<and> walEnabled (wal_write st line io) = walEnabled st"
  by (simp add: wal_write_def split: option.splits)

lemma applyRetention_store_cong:
  assumes "store a = store b" and "retentionPolicy a = retentionPolicy b"
  shows "store (applyRetention a key rnow) = store (applyRetention b key rnow)"
proof (cases "store b key")
  case None
  with assms show ?thesis by (simp add: applyRetention_def)
next
  case (Some versions)
  with assms show ?thesis
    by (cases "mode (retentionPolicy b)") (simp_all add: applyRetention_def Let_def)
qed

text \<open>
  What the writers and the mutators do for every outcome of the stream write: the
  status of a log function is \<open>ERROR\<close> only when the WAL is off, its file is closed or an
  exception was caught; \<open>enabled\<close> is never assigned; \<open>set\<close> returns \<open>OK\<close> and appends
  the version before retention runs, \<open>del\<close> removes the key, \<open>setDecisionPolicy\<close> installs
  the policy.
\<close>

lemma mutation_completes:
  "fst (logSet w key val ts io)
     = (if \<not> enabled w \<or> \<not> is_open w \<or> io = IoThrows then ERROR else OK)
   \<and> fst (logDel w key io)
     = (if \<not> enabled w \<or> \<not> is_open w \<or> io = IoThrows then ERROR else OK)
   \<and> fst (logPolicy w policyName io)
     = (if \<not> enabled w \<or> \<not> is_open w \<or> io = IoThrows then ERROR else OK)
   \<and> enabled (snd (logSet w key val ts io)) = enabled w
   \<and> enabled (snd (logDel w key io)) = enabled w
   \<and> enabled (snd (logPolicy w policyName io)) = enabled w
   \<and> fst (set_kv st key val now rnow io) = OK
   \<and> store (snd (set_kv st key val now rnow io))
       = store (applyRetention
           (st\<lparr>store := (store st)
              (key \<mapsto> getHistory st key @ [\<lparr>timestamp = now, v_value = val\<rparr>])\<rparr>)
           key rnow)
   \<and> fst (del st key io) = (if store st key = None then NOT_FOUND else OK)
   \<and> store (snd (del st key io)) = (store st)(key := None)
   \<and> decisionPolicy (setDecisionPolicy st policy io) = policy"
proof -
  have l: "fst (log_line w line io)
             = (if \<not> enabled w \<or> \<not> is_open w \<or> io = IoThrows then ERROR else OK)" for line
    by (cases io) (simp_all add: log_line_def)
  have s: "store (snd (set_kv st key val now rnow io))
       = store (applyRetention
           (st\<lparr>store := (store st)
              (key \<mapsto> getHistory st key @ [\<lparr>timestamp = now, v_value = val\<rparr>])\<rparr>)
           key rnow)"
    unfolding set_kv_def Let_def snd_conv
    by (rule applyRetention_store_cong) (simp_all add: wal_write_frame getHistory_def)
  have d: "fst (del st key io) = (if store st key = None then NOT_FOUND else OK)
           \<and> store (snd (del st key io)) = (store st)(key := None)"
    by (cases "store st key") (auto simp add: del_def Let_def wal_write_frame)
  show ?thesis
    using s d
    by (simp add: logSet_def logDel_def logPolicy_def l log_line_enabled set_kv_def Let_def
          setDecisionPolicy_def wal_write_frame)
qed

text \<open>
  Claim C6 fails in its first half. On an enabled WAL with an open file, a record write
  that fails leaves the WAL enabled: when the stream fails, \<open>logSet\<close> returns \<open>OK\<close> (no
  exception mask is set on \<open>logFile\<close>, so the \<open>catch\<close> that warns is not entered); when an
  exception is caught, it returns \<open>ERROR\<close>; neither path assigns \<open>enabled\<close>, as
  \<open>initialize\<close> and \<open>clearLog\<close> do on their failures. The second half holds: \<open>set\<close> on the
  engine with that WAL returns \<open>OK\<close> and the version is appended.
\<close>

theorem wal_failure_stays_enabled:
  "enabled open_wal \<and> is_open open_wal
   \<and> logSet open_wal ''k'' ''v'' 5 IoFails = (OK, open_wal)
   \<and> logSet open_wal ''k'' ''v'' 5 IoThrows = (ERROR, open_wal)
   \<and> logDel open_wal ''k'' IoFails = (OK, open_wal)
   \<and> logDel open_wal ''k'' IoThrows = (ERROR, open_wal)
   \<and> logPolicy open_wal ''STRICT'' IoFails = (OK, open_wal)
   \<and> logPolicy open_wal ''STRICT'' IoThrows = (ERROR, open_wal)
   \<and> fst (set_kv open_engine ''k'' ''v'' 5 0 IoFails) = OK
   \<and> wal (snd (set_kv open_engine ''k'' ''v'' 5 0 IoFails)) = Some open_wal
   \<and> getHistory (snd (set_kv open_engine ''k'' ''v'' 5 0 IoFails)) ''k''
       = [\<lparr>timestamp = 5, v_value = ''v''\<rparr>]
   \<and> wal (snd (set_kv open_engine ''k'' ''v'' 5 0 IoThrows)) = Some open_wal
   \<and> getHistory (snd (set_kv open_engine ''k'' ''v'' 5 0 IoThrows)) ''k''
       = [\<lparr>timestamp = 5, v_value = ''v''\<rparr>]"
  by (simp add: logSet_def logDel_def logPolicy_def log_line_def open_wal_def open_engine_def
        KVStore_new_def set_kv_def wal_write_def Let_def getHistory_def applyRetention_def
        RetentionPolicy_default_def)

section \<open>Properties of recovery\<close>

lemma isspace_space [simp]: "isspace_c (CHR '' '')"
  by (simp add: isspace_c_def)

lemma isspace_newline [simp]: "isspace_c newline"
  by (simp add: isspace_c_def newline_def)

lemma digit_char_props:
  assumes "d < 10"
  shows "isdigit_c (digit_char d)" and "digit_val (digit_char d) = d"
    and "\<not> isspace_c (digit_char d)"
    and "digit_char d \<noteq> CHR ''-''" and "digit_char d \<noteq> CHR ''+''"
proof -
  from assms have o: "(of_char (digit_char d) :: nat) = 48 + d"
    by (simp add: digit_char_def)
  from o assms show "isdigit_c (digit_char d)" by (simp add: isdigit_c_def)
  from o show "digit_val (digit_char d) = d" by (simp add: digit_val_def)
  from o assms show "\<not> isspace_c (digit_char d)" by (simp add: isspace_c_def)
  from o show "digit_char d \<noteq> CHR ''-''" by (auto simp del: of_char_eq_iff)
  from o show "digit_char d \<noteq> CHR ''+''" by (auto simp del: of_char_eq_iff)
qed

lemma digits_value_snoc: "digits_value (ds @ [c]) = digits_value ds * 10 + digit_val c"
  by (simp add: digits_value_def)

lemma digits_props:
  "digits n \<noteq> [] \<and> (\<forall>c \<in> set (digits n). isdigit_c c \<and> \<not> isspace_c c)
   \<and> digits_value (digits n) = n \<and> hd (digits n) \<noteq> CHR ''-'' \<and> hd (digits n) \<noteq> CHR ''+''"
proof (induction n rule: digits.induct)
  case (1 n)
  show ?case
  proof (cases "n < 10")
    case True
    then have "digits n = [digit_char n]" by (simp add: digits.simps)
    with True show ?thesis
      by (simp add: digit_char_props digits_value_def)
  next
    case False
    then have d: "digits n = digits (n div 10) @ [digit_char (n mod 10)]"
      by (simp add: digits.simps)
    have m: "n mod 10 < 10" by simp
    from 1 [OF False] d show ?thesis
      by (simp add: digit_char_props [OF m] digits_value_snoc)
  qed
qed

lemma parse_decimal_to_string: "parse_decimal (CHR '' '' # to_string i) = Some (i, [])"
proof (cases "i < 0")
  case True
  let ?ds = "digits (nat (- i))"
  have p: "?ds \<noteq> []" "\<forall>c \<in> set ?ds. isdigit_c c" "digits_value ?ds = nat (- i)"
    using digits_props [of "nat (- i)"] by auto
  from p(2) have t: "takeWhile isdigit_c ?ds = ?ds" "dropWhile isdigit_c ?ds = []"
    by simp_all
  have s: "\<not> isspace_c (CHR ''-'')" by (simp add: isspace_c_def)
  from True p s show ?thesis
    by (simp add: parse_decimal_def to_string_def Let_def t)
next
  case False
  let ?ds = "digits (nat i)"
  have p: "?ds \<noteq> []" "\<forall>c \<in> set ?ds. isdigit_c c \<and> \<not> isspace_c c" "digits_value ?ds = nat i"
    "hd ?ds \<noteq> CHR ''-''" "hd ?ds \<noteq> CHR ''+''"
    using digits_props [of "nat i"] by auto
  from p(2) have t: "takeWhile isdigit_c ?ds = ?ds" "dropWhile isdigit_c ?ds = []"
    by simp_all
  from p(1,2) have "\<not> isspace_c (hd ?ds)" by (cases ?ds) auto
  with p(1) have sp: "dropWhile isspace_c ?ds = ?ds" by (cases ?ds) auto
  from False p show ?thesis
    by (simp add: parse_decimal_def to_string_def Let_def t sp)
qed

lemma to_string_no_space: "\<forall>c \<in> set (to_string i). \<not> isspace_c c"
  using digits_props [of "nat i"] digits_props [of "nat (- i)"]
  by (auto simp add: to_string_def isspace_c_def)

lemma c_div_between:
  assumes "0 < b"
  shows "(0 \<le> a \<longrightarrow> 0 \<le> c_div a b \<and> c_div a b \<le> a)
         \<and> (a < 0 \<longrightarrow> a \<le> c_div a b \<and> c_div a b \<le> 0)"
proof -
  define q where "q = \<bar>a\<bar> div \<bar>b\<bar>"
  have q0: "0 \<le> q"
    unfolding q_def using assms by (simp add: pos_imp_zdiv_nonneg_iff)
  have "\<bar>a\<bar> div \<bar>b\<bar> \<le> \<bar>a\<bar> div 1"
    using assms by (intro zdiv_mono2) simp_all
  then have qle: "q \<le> \<bar>a\<bar>" by (simp add: q_def)
  have "c_div a b = (if a < 0 then - q else q)"
    unfolding c_div_def q_def using assms by simp
  with q0 qle show ?thesis by (simp add: abs_if split: if_splits)
qed

lemma int64_epoch_ms: "int64 ts \<Longrightarrow> int64 (epoch_ms ts)"
proof -
  assume "int64 ts"
  moreover have "(0 \<le> ts \<longrightarrow> 0 \<le> c_div ts ticks_per_ms \<and> c_div ts ticks_per_ms \<le> ts)
         \<and> (ts < 0 \<longrightarrow> ts \<le> c_div ts ticks_per_ms \<and> c_div ts ticks_per_ms \<le> 0)"
    by (rule c_div_between) (simp add: ticks_per_ms_def)
  ultimately show ?thesis
    unfolding int64_def epoch_ms_def by linarith
qed

lemma read_long_long_to_string:
  "int64 i \<Longrightarrow> read_long_long (CHR '' '' # to_string i) = Some i"
  by (simp add: read_long_long_def parse_decimal_to_string int64_def)

lemma wf_word_iff: "wf_word w \<longleftrightarrow> w \<noteq> [] \<and> (\<forall>c \<in> set w. \<not> isspace_c c)"
  by (simp add: wf_word_def filter_empty_conv)

lemma read_token_leading_space: "read_token (CHR '' '' # s) = read_token s"
  by (simp add: read_token_def)

lemma read_token_word_more:
  assumes "wf_word w" and "isspace_c x"
  shows "read_token (w @ x # rest) = (w, x # rest)"
proof -
  from assms(1) obtain c cs where w: "w = c # cs" and c: "\<not> isspace_c c"
    and cs: "\<forall>d \<in> set cs. \<not> isspace_c d"
    by (cases w) (auto simp add: wf_word_iff)
  from c have d: "dropWhile isspace_c (w @ x # rest) = w @ x # rest" by (simp add: w)
  from assms have t: "takeWhile (\<lambda>c. \<not> isspace_c c) (w @ x # rest) = w"
    by (simp add: wf_word_iff takeWhile_tail)
  from assms have r: "dropWhile (\<lambda>c. \<not> isspace_c c) (w @ x # rest) = x # rest"
    by (simp add: wf_word_iff dropWhile_append2)
  show ?thesis by (simp add: read_token_def Let_def d t r)
qed

lemma read_token_word_end:
  assumes "wf_word w"
  shows "read_token w = (w, [])"
proof -
  from assms obtain c cs where w: "w = c # cs" and c: "\<not> isspace_c c"
    by (cases w) (auto simp add: wf_word_iff)
  from c have d: "dropWhile isspace_c w = w" by (simp add: w)
  from assms have t: "takeWhile (\<lambda>c. \<not> isspace_c c) w = w" "dropWhile (\<lambda>c. \<not> isspace_c c) w = []"
    by (simp_all add: wf_word_iff)
  show ?thesis by (simp add: read_token_def Let_def d t)
qed

lemma wf_SET: "wf_word ''SET''" and wf_DEL: "wf_word ''DEL''" and wf_POLICY: "wf_word ''POLICY''"
  by (simp_all add: wf_word_def isspace_c_def)

lemma wf_policy_name: "wf_word (policy_name p)"
  by (cases p) (simp_all add: policy_name_def wf_word_def isspace_c_def)

lemma policy_of_name_policy_name: "policy_of_name (policy_name p) = Some p"
  by (cases p) (simp_all add: policy_of_name_def policy_name_def)

lemma set_record_shape:
  "set_record key val ts
     = ''SET'' @ CHR '' '' # key @ CHR '' '' # val @ CHR '' '' # to_string (epoch_ms ts)"
  by (simp add: set_record_def)

lemma del_record_shape: "del_record key = ''DEL'' @ CHR '' '' # key"
  by (simp add: del_record_def)

lemma policy_record_shape:
  "policy_record nm = ''POLICY'' @ CHR '' '' # ''SET'' @ CHR '' '' # nm"
  by (simp add: policy_record_def)

lemma replay_data_line_set:
  assumes "wf_word key" and "wf_word val" and "int64 ts"
  shows "replay_data_line st now rnow (set_record key val ts)
           = snd (setAtTime st key val (from_epoch_ms (epoch_ms ts)) rnow)"
proof -
  have a: "read_token (set_record key val ts)
             = (''SET'', CHR '' '' # key @ CHR '' '' # val @ CHR '' '' # to_string (epoch_ms ts))"
    unfolding set_record_shape by (rule read_token_word_more [OF wf_SET isspace_space])
  have b: "read_token (CHR '' '' # key @ CHR '' '' # val @ CHR '' '' # to_string (epoch_ms ts))
             = (key, CHR '' '' # val @ CHR '' '' # to_string (epoch_ms ts))"
    unfolding read_token_leading_space by (rule read_token_word_more [OF assms(1) isspace_space])
  have c: "read_token (CHR '' '' # val @ CHR '' '' # to_string (epoch_ms ts))
             = (val, CHR '' '' # to_string (epoch_ms ts))"
    unfolding read_token_leading_space by (rule read_token_word_more [OF assms(2) isspace_space])
  have d: "read_long_long (CHR '' '' # to_string (epoch_ms ts)) = Some (epoch_ms ts)"
    by (rule read_long_long_to_string [OF int64_epoch_ms [OF assms(3)]])
  show ?thesis
    by (simp add: replay_data_line_def a b c d)
qed

lemma replay_policy_line_set: "replay_policy_line st (set_record key val ts) = st"
proof -
  have a: "read_token (set_record key val ts)
             = (''SET'', CHR '' '' # key @ CHR '' '' # val @ CHR '' '' # to_string (epoch_ms ts))"
    unfolding set_record_shape by (rule read_token_word_more [OF wf_SET isspace_space])
  show ?thesis by (simp add: replay_policy_line_def a)
qed

lemma replay_data_line_del:
  assumes "wf_word key"
  shows "replay_data_line st now rnow (del_record key) = snd (del st key IoOk)"
proof -
  have a: "read_token (del_record key) = (''DEL'', CHR '' '' # key)"
    unfolding del_record_shape by (rule read_token_word_more [OF wf_DEL isspace_space])
  have b: "read_token (CHR '' '' # key) = (key, [])"
    unfolding read_token_leading_space by (rule read_token_word_end [OF assms])
  from assms have "key \<noteq> []" by (simp add: wf_word_def)
  then show ?thesis by (simp add: replay_data_line_def a b)
qed

lemma replay_policy_line_del: "replay_policy_line st (del_record key) = st"
proof -
  have a: "read_token (del_record key) = (''DEL'', CHR '' '' # key)"
    unfolding del_record_shape by (rule read_token_word_more [OF wf_DEL isspace_space])
  show ?thesis by (simp add: replay_policy_line_def a)
qed

lemma replay_policy_line_policy:
  "replay_policy_line st (policy_record (policy_name p))
     = setDecisionPolicy (setWalEnabled st False) p IoOk"
proof -
  have a: "read_token (policy_record (policy_name p))
             = (''POLICY'', CHR '' '' # ''SET'' @ CHR '' '' # policy_name p)"
    unfolding policy_record_shape by (rule read_token_word_more [OF wf_POLICY isspace_space])
  have b: "read_token (CHR '' '' # ''SET'' @ CHR '' '' # policy_name p)
             = (''SET'', CHR '' '' # policy_name p)"
    unfolding read_token_leading_space by (rule read_token_word_more [OF wf_SET isspace_space])
  have c: "read_token (CHR '' '' # policy_name p) = (policy_name p, [])"
    unfolding read_token_leading_space by (rule read_token_word_end [OF wf_policy_name])
  show ?thesis
    by (simp add: replay_policy_line_def a b [simplified] c policy_of_name_policy_name)
qed

lemma replay_data_line_policy: "replay_data_line st now rnow (policy_record nm) = st"
proof -
  have a: "read_token (policy_record nm)
             = (''POLICY'', CHR '' '' # ''SET'' @ CHR '' '' # nm)"
    unfolding policy_record_shape by (rule read_token_word_more [OF wf_POLICY isspace_space])
  show ?thesis by (simp add: replay_data_line_def a)
qed

lemma wf_word_no_newline: "wf_word w \<Longrightarrow> newline \<notin> set w"
  using isspace_newline by (auto simp add: wf_word_iff)

lemma to_string_no_newline: "newline \<notin> set (to_string i)"
  using to_string_no_space [of i] isspace_newline by auto

lemma set_record_line:
  assumes "wf_word key" and "wf_word val"
  shows "set_record key val ts \<noteq> [] \<and> newline \<notin> set (set_record key val ts)"
proof -
  have 1: "newline \<notin> set ''SET ''" and 2: "newline \<notin> set '' ''"
    by (simp_all add: newline_def)
  note 3 = wf_word_no_newline [OF assms(1)] wf_word_no_newline [OF assms(2)]
    to_string_no_newline [of "epoch_ms ts"]
  have "newline \<notin> set (set_record key val ts)"
    unfolding set_record_def set_append Un_iff using 1 2 3 by blast
  then show ?thesis by (simp add: set_record_def)
qed

lemma del_record_line:
  assumes "wf_word key"
  shows "del_record key \<noteq> [] \<and> newline \<notin> set (del_record key)"
proof -
  have 1: "newline \<notin> set ''DEL ''"
    by (simp add: newline_def)
  have "newline \<notin> set (del_record key)"
    unfolding del_record_def set_append Un_iff using 1 wf_word_no_newline [OF assms] by blast
  then show ?thesis by (simp add: del_record_def)
qed

lemma policy_record_line:
  "policy_record (policy_name p) \<noteq> [] \<and> newline \<notin> set (policy_record (policy_name p))"
proof -
  have 1: "newline \<notin> set ''POLICY SET ''"
    by (simp add: newline_def)
  have "newline \<notin> set (policy_record (policy_name p))"
    unfolding policy_record_def set_append Un_iff
    using 1 wf_word_no_newline [OF wf_policy_name, of p] by blast
  then show ?thesis by (simp add: policy_record_def)
qed

lemma getlines_line:
  "newline \<notin> set l \<Longrightarrow> getlines cur (l @ newline # rest) = (cur @ l) # getlines [] rest"
  by (induction l arbitrary: cur) auto

lemma getlines_terminated:
  "\<forall>l \<in> set ls. newline \<notin> set l \<Longrightarrow>
     getlines [] (concat (map (\<lambda>l. l @ [newline]) ls)) = ls"
  by (induction ls) (simp_all add: getlines_line)

lemma read_commands_terminated:
  assumes "\<forall>l \<in> set ls. l \<noteq> [] \<and> newline \<notin> set l"
  shows "read_commands (concat (map (\<lambda>l. l @ [newline]) ls)) = ls"
proof -
  from assms have "getlines [] (concat (map (\<lambda>l. l @ [newline]) ls)) = ls"
    by (intro getlines_terminated) blast
  moreover from assms have "filter (\<lambda>line. line \<noteq> []) ls = ls"
    by (simp add: filter_id_conv)
  ultimately show ?thesis by (simp add: read_commands_def)
qed

lemma wal_write_disabled: "\<not> walEnabled st \<Longrightarrow> wal_write st line io = st"
  by (simp add: wal_write_def split: option.splits)

lemma wal_write_ok:
  assumes "wal st = Some w" and "enabled w" and "is_open w" and "walEnabled st"
  shows "wal (wal_write st line IoOk) = Some (w\<lparr>logFile := logFile w @ line @ [newline]\<rparr>)"
  using assms by (simp add: wal_write_def log_line_def)

lemma applyRetention_frame:
  "wal (applyRetention st key rnow) = wal st
   \<and> walEnabled (applyRetention st key rnow) = walEnabled st
   \<and> retentionPolicy (applyRetention st key rnow) = retentionPolicy st
   \<and> guards (applyRetention st key rnow) = guards st
   \<and> decisionPolicy (applyRetention st key rnow) = decisionPolicy st"
proof (cases "store st key")
  case None
  then show ?thesis by (simp add: applyRetention_def)
next
  case (Some versions)
  then show ?thesis
    by (cases "mode (retentionPolicy st)") (simp_all add: applyRetention_def Let_def)
qed

lemma applyRetention_FULL: "mode (retentionPolicy st) = FULL \<Longrightarrow> applyRetention st key rnow = st"
  by (simp add: applyRetention_def split: option.splits)

lemma setAtTime_frame:
  "wal (snd (setAtTime st key val ts rnow)) = wal st
   \<and> walEnabled (snd (setAtTime st key val ts rnow)) = walEnabled st
   \<and> retentionPolicy (snd (setAtTime st key val ts rnow)) = retentionPolicy st
   \<and> guards (snd (setAtTime st key val ts rnow)) = guards st
   \<and> decisionPolicy (snd (setAtTime st key val ts rnow)) = decisionPolicy st"
  by (simp add: setAtTime_def Let_def applyRetention_frame)

lemma setAtTime_store_FULL:
  "mode (retentionPolicy st) = FULL \<Longrightarrow>
     store (snd (setAtTime st key val ts rnow))
       = (store st)(key \<mapsto> getHistory st key @ [\<lparr>timestamp = ts, v_value = val\<rparr>])"
  by (simp add: setAtTime_def Let_def applyRetention_FULL)

lemma del_frame:
  "walEnabled (snd (del st key io)) = walEnabled st
   \<and> retentionPolicy (snd (del st key io)) = retentionPolicy st
   \<and> guards (snd (del st key io)) = guards st
   \<and> decisionPolicy (snd (del st key io)) = decisionPolicy st
   \<and> store (snd (del st key io)) = (store st)(key := None)"
  by (cases "store st key") (auto simp add: del_def Let_def wal_write_frame)

lemma del_wal_disabled: "\<not> walEnabled st \<Longrightarrow> wal (snd (del st key io)) = wal st"
  by (cases "store st key") (simp_all add: del_def Let_def wal_write_disabled)

lemma replay_data_line_frame:
  "walEnabled (replay_data_line st now rnow l) = walEnabled st
   \<and> retentionPolicy (replay_data_line st now rnow l) = retentionPolicy st
   \<and> guards (replay_data_line st now rnow l) = guards st
   \<and> decisionPolicy (replay_data_line st now rnow l) = decisionPolicy st"
  by (simp add: replay_data_line_def setAtTime_frame del_frame split: prod.splits option.splits)

lemma replay_data_line_wal:
  "\<not> walEnabled st \<Longrightarrow> wal (replay_data_line st now rnow l) = wal st"
  by (simp add: replay_data_line_def setAtTime_frame del_wal_disabled
        split: prod.splits option.splits)

lemma replay_data_frame:
  "walEnabled (replay_data st clk rclk i ls) = walEnabled st
   \<and> retentionPolicy (replay_data st clk rclk i ls) = retentionPolicy st
   \<and> guards (replay_data st clk rclk i ls) = guards st
   \<and> decisionPolicy (replay_data st clk rclk i ls) = decisionPolicy st"
  by (induction ls arbitrary: st i) (simp_all add: replay_data_line_frame)

lemma replay_data_wal:
  "\<not> walEnabled st \<Longrightarrow> wal (replay_data st clk rclk i ls) = wal st"
  by (induction ls arbitrary: st i) (simp_all add: replay_data_line_frame replay_data_line_wal)

lemma replay_data_append:
  "replay_data st clk rclk i (xs @ ys)
     = replay_data (replay_data st clk rclk i xs) clk rclk (i + length xs) ys"
  by (induction xs arbitrary: st i) simp_all

lemma setDecisionPolicy_frame:
  "store (setDecisionPolicy st p io) = store st
   \<and> retentionPolicy (setDecisionPolicy st p io) = retentionPolicy st
   \<and> guards (setDecisionPolicy st p io) = guards st
   \<and> walEnabled (setDecisionPolicy st p io) = walEnabled st
   \<and> decisionPolicy (setDecisionPolicy st p io) = p"
  by (simp add: setDecisionPolicy_def wal_write_frame)

lemma replay_policy_line_frame:
  "store (replay_policy_line st l) = store st
   \<and> retentionPolicy (replay_policy_line st l) = retentionPolicy st
   \<and> guards (replay_policy_line st l) = guards st
   \<and> wal (replay_policy_line st l) = wal st
   \<and> (\<not> walEnabled st \<longrightarrow> \<not> walEnabled (replay_policy_line st l))"
  by (simp add: replay_policy_line_def setDecisionPolicy_frame setDecisionPolicy_def
        setWalEnabled_def wal_write_disabled split: prod.splits option.splits)

lemma replay_policy_frame:
  "store (foldl replay_policy_line st ls) = store st
   \<and> retentionPolicy (foldl replay_policy_line st ls) = retentionPolicy st
   \<and> guards (foldl replay_policy_line st ls) = guards st
   \<and> wal (foldl replay_policy_line st ls) = wal st
   \<and> (\<not> walEnabled st \<longrightarrow> \<not> walEnabled (foldl replay_policy_line st ls))"
  by (induction ls arbitrary: st) (simp_all add: replay_policy_line_frame)

lemma truncate_store_empty: "truncate_store Map.empty = Map.empty"
  by (simp add: truncate_store_def)

lemma truncate_store_append:
  "truncate_store (m(key \<mapsto> (case m key of Some vs \<Rightarrow> vs | None \<Rightarrow> []) @ [\<lparr>timestamp = ts, v_value = val\<rparr>]))
     = (truncate_store m)(key \<mapsto> (case truncate_store m key of Some vs \<Rightarrow> vs | None \<Rightarrow> [])
          @ [\<lparr>timestamp = from_epoch_ms (epoch_ms ts), v_value = val\<rparr>])"
  by (rule ext) (simp add: truncate_store_def truncate_ms_def split: option.splits)

lemma truncate_store_erase: "truncate_store (m(key := None)) = (truncate_store m)(key := None)"
  by (rule ext) (simp add: truncate_store_def)

text \<open>On empty files \<open>main\<close> leaves the engine that \<open>run\<close> starts from.\<close>

lemma main_recovery_empty_files:
  "main_recovery True [] [] snapshotTime srclk clk rclk = fresh_engine"
  by (simp add: main_recovery_def initialize_def read_commands_def readLog_def
        fresh_engine_def Let_def)

lemma logged_by_fresh: "logged_by [] fresh_engine"
  by (simp add: logged_by_def fresh_engine_def KVStore_new_def truncate_store_empty
        RetentionPolicy_default_def)

lemma logged_by_FULL: "logged_by lines st \<Longrightarrow> mode (retentionPolicy st) = FULL"
  by (simp add: logged_by_def RetentionPolicy_default_def)

lemma logged_by_set:
  assumes inv: "logged_by lines st"
    and wf: "wf_word key" "wf_word val" "int64 now"
  shows "logged_by (lines @ [set_record key val now]) (snd (set_kv st key val now rnow IoOk))"
proof -
  let ?st' = "snd (set_kv st key val now rnow IoOk)"
  let ?l = "set_record key val now"
  let ?w = "\<lparr>enabled = True, is_open = True, logFile = concat (map (\<lambda>l. l @ [newline]) lines)\<rparr>"
  from inv have w: "wal st = Some ?w" and we: "walEnabled st"
    and rp: "retentionPolicy st = RetentionPolicy_default" and g: "guards st = []"
    and ls: "\<forall>l \<in> set lines. l \<noteq> [] \<and> newline \<notin> set l"
    and keys: "\<forall>key. store st key \<noteq> None \<longrightarrow> wf_word key"
    and pol: "\<And>s. decisionPolicy s = SAFE_DEFAULT \<Longrightarrow>
                decisionPolicy (foldl replay_policy_line s lines) = decisionPolicy st"
    and sto: "\<And>s clk rclk i. store s = Map.empty \<and> mode (retentionPolicy s) = FULL \<Longrightarrow>
                store (replay_data s clk rclk i lines) = truncate_store (store st)"
    by (simp_all add: logged_by_def)
  have full: "mode (retentionPolicy st) = FULL" by (rule logged_by_FULL [OF inv])
  let ?st1 = "wal_write st ?l IoOk"
  have full1: "mode (retentionPolicy (?st1\<lparr>store := (store ?st1)
       (key \<mapsto> getHistory ?st1 key @ [\<lparr>timestamp = now, v_value = val\<rparr>])\<rparr>)) = FULL"
    using full by (simp add: wal_write_frame)
  have st': "?st' = ?st1\<lparr>store := (store st)
       (key \<mapsto> getHistory st key @ [\<lparr>timestamp = now, v_value = val\<rparr>])\<rparr>"
    unfolding set_kv_def Let_def snd_conv applyRetention_FULL [OF full1]
    by (simp add: wal_write_frame getHistory_def)
  have w': "wal ?st' = Some \<lparr>enabled = True, is_open = True,
              logFile = concat (map (\<lambda>l. l @ [newline]) (lines @ [?l]))\<rparr>"
    unfolding st' using wal_write_ok [OF w _ _ we, of ?l] by simp
  have store': "store ?st' = (store st)(key \<mapsto> getHistory st key @ [\<lparr>timestamp = now, v_value = val\<rparr>])"
    unfolding st' by simp
  have others: "walEnabled ?st'" "retentionPolicy ?st' = RetentionPolicy_default" "guards ?st' = []"
    "decisionPolicy ?st' = decisionPolicy st"
    unfolding st' using we rp g by (simp_all add: wal_write_frame)
  have ls': "\<forall>l \<in> set (lines @ [?l]). l \<noteq> [] \<and> newline \<notin> set l"
    using ls set_record_line [OF wf(1,2), of now] by simp
  have keys': "\<forall>k. store ?st' k \<noteq> None \<longrightarrow> wf_word k"
    using keys wf(1) by (simp add: store')
  have pol': "decisionPolicy (foldl replay_policy_line s (lines @ [?l])) = decisionPolicy ?st'"
    if "decisionPolicy s = SAFE_DEFAULT" for s
    using pol [OF that] by (simp add: replay_policy_line_set others)
  have sto': "store (replay_data s clk rclk i (lines @ [?l])) = truncate_store (store ?st')"
    if s: "store s = Map.empty \<and> mode (retentionPolicy s) = FULL" for s clk rclk i
  proof -
    let ?r = "replay_data s clk rclk i lines"
    have r: "store ?r = truncate_store (store st)" by (rule sto [OF s])
    have rf: "mode (retentionPolicy ?r) = FULL" using s by (simp add: replay_data_frame)
    have "store (replay_data s clk rclk i (lines @ [?l]))
            = store (snd (setAtTime ?r key val (from_epoch_ms (epoch_ms now)) (rclk (i + length lines))))"
      by (simp add: replay_data_append replay_data_line_set [OF wf])
    also have "\<dots> = (truncate_store (store st))
         (key \<mapsto> (case truncate_store (store st) key of Some vs \<Rightarrow> vs | None \<Rightarrow> [])
            @ [\<lparr>timestamp = from_epoch_ms (epoch_ms now), v_value = val\<rparr>])"
      by (simp add: setAtTime_store_FULL [OF rf] r getHistory_def)
    also have "\<dots> = truncate_store (store ?st')"
      unfolding store' getHistory_def by (rule truncate_store_append [symmetric])
    finally show ?thesis .
  qed
  show ?thesis
    unfolding logged_by_def
    using w' others(1,2,3) ls' keys' pol' sto' by blast
qed

lemma logged_by_del:
  assumes inv: "logged_by lines st"
  shows "\<exists>lines'. logged_by lines' (snd (del st key IoOk))"
proof (cases "store st key")
  case None
  then have "snd (del st key IoOk) = st" by (simp add: del_def)
  with inv show ?thesis by auto
next
  case (Some versions)
  let ?st' = "snd (del st key IoOk)"
  let ?l = "del_record key"
  let ?w = "\<lparr>enabled = True, is_open = True, logFile = concat (map (\<lambda>l. l @ [newline]) lines)\<rparr>"
  from inv have w: "wal st = Some ?w" and we: "walEnabled st"
    and rp: "retentionPolicy st = RetentionPolicy_default" and g: "guards st = []"
    and ls: "\<forall>l \<in> set lines. l \<noteq> [] \<and> newline \<notin> set l"
    and keys: "\<forall>key. store st key \<noteq> None \<longrightarrow> wf_word key"
    and pol: "\<And>s. decisionPolicy s = SAFE_DEFAULT \<Longrightarrow>
                decisionPolicy (foldl replay_policy_line s lines) = decisionPolicy st"
    and sto: "\<And>s clk rclk i. store s = Map.empty \<and> mode (retentionPolicy s) = FULL \<Longrightarrow>
                store (replay_data s clk rclk i lines) = truncate_store (store st)"
    by (simp_all add: logged_by_def)
  from keys Some have wf: "wf_word key" by simp
  have w': "wal ?st' = Some \<lparr>enabled = True, is_open = True,
              logFile = concat (map (\<lambda>l. l @ [newline]) (lines @ [?l]))\<rparr>"
    using Some wal_write_ok [OF w _ _ we, of ?l] by (simp add: del_def Let_def)
  have store': "store ?st' = (store st)(key := None)"
    by (simp add: del_frame)
  have others: "walEnabled ?st'" "retentionPolicy ?st' = RetentionPolicy_default" "guards ?st' = []"
    "decisionPolicy ?st' = decisionPolicy st"
    using we rp g by (simp_all add: del_frame)
  have ls': "\<forall>l \<in> set (lines @ [?l]). l \<noteq> [] \<and> newline \<notin> set l"
    using ls del_record_line [OF wf] by simp
  have keys': "\<forall>k. store ?st' k \<noteq> None \<longrightarrow> wf_word k"
    using keys by (simp add: store')
  have pol': "decisionPolicy (foldl replay_policy_line s (lines @ [?l])) = decisionPolicy ?st'"
    if "decisionPolicy s = SAFE_DEFAULT" for s
    using pol [OF that] by (simp add: replay_policy_line_del others)
  have sto': "store (replay_data s clk rclk i (lines @ [?l])) = truncate_store (store ?st')"
    if s: "store s = Map.empty \<and> mode (retentionPolicy s) = FULL" for s clk rclk i
  proof -
    let ?r = "replay_data s clk rclk i lines"
    have r: "store ?r = truncate_store (store st)" by (rule sto [OF s])
    have "store (replay_data s clk rclk i (lines @ [?l])) = store (snd (del ?r key IoOk))"
      by (simp add: replay_data_append replay_data_line_del [OF wf])
    also have "\<dots> = (truncate_store (store st))(key := None)"
      by (simp add: del_frame r)
    also have "\<dots> = truncate_store (store ?st')"
      unfolding store' by (rule truncate_store_erase [symmetric])
    finally show ?thesis .
  qed
  have "logged_by (lines @ [?l]) ?st'"
    unfolding logged_by_def
    using w' others(1,2,3) ls' keys' pol' sto' by blast
  then show ?thesis ..
qed

lemma logged_by_policy:
  assumes inv: "logged_by lines st"
  shows "logged_by (lines @ [policy_record (policy_name p)]) (setDecisionPolicy st p IoOk)"
proof -
  let ?st' = "setDecisionPolicy st p IoOk"
  let ?l = "policy_record (policy_name p)"
  let ?w = "\<lparr>enabled = True, is_open = True, logFile = concat (map (\<lambda>l. l @ [newline]) lines)\<rparr>"
  from inv have w: "wal st = Some ?w" and we: "walEnabled st"
    and rp: "retentionPolicy st = RetentionPolicy_default" and g: "guards st = []"
    and ls: "\<forall>l \<in> set lines. l \<noteq> [] \<and> newline \<notin> set l"
    and keys: "\<forall>key. store st key \<noteq> None \<longrightarrow> wf_word key"
    and sto: "\<And>s clk rclk i. store s = Map.empty \<and> mode (retentionPolicy s) = FULL \<Longrightarrow>
                store (replay_data s clk rclk i lines) = truncate_store (store st)"
    by (simp_all add: logged_by_def)
  have w': "wal ?st' = Some \<lparr>enabled = True, is_open = True,
              logFile = concat (map (\<lambda>l. l @ [newline]) (lines @ [?l]))\<rparr>"
    using wal_write_ok [of "st\<lparr>decisionPolicy := p\<rparr>" ?w ?l] w we
    by (simp add: setDecisionPolicy_def)
  have others: "walEnabled ?st'" "retentionPolicy ?st' = RetentionPolicy_default" "guards ?st' = []"
    "decisionPolicy ?st' = p" "store ?st' = store st"
    using we rp g by (simp_all add: setDecisionPolicy_frame)
  have ls': "\<forall>l \<in> set (lines @ [?l]). l \<noteq> [] \<and> newline \<notin> set l"
    using ls policy_record_line [of p] by simp
  have keys': "\<forall>k. store ?st' k \<noteq> None \<longrightarrow> wf_word k"
    using keys by (simp add: others)
  have pol': "decisionPolicy (foldl replay_policy_line s (lines @ [?l])) = decisionPolicy ?st'"
    for s
    by (simp add: replay_policy_line_policy setDecisionPolicy_frame)
  have sto': "store (replay_data s clk rclk i (lines @ [?l])) = truncate_store (store ?st')"
    if s: "store s = Map.empty \<and> mode (retentionPolicy s) = FULL" for s clk rclk i
    using sto [OF s] by (simp add: replay_data_append replay_data_line_policy others)
  show ?thesis
    unfolding logged_by_def
    using w' others(1,2,3) ls' keys' pol' sto' by blast
qed

lemma run_snoc: "run (ops @ [op]) = apply_operation (run ops) op"
  by (simp add: run_def)

lemma run_logged:
  "\<forall>op \<in> set ops. wf_operation op \<Longrightarrow> \<exists>lines. logged_by lines (run ops)"
proof (induction ops rule: rev_induct)
  case Nil
  have "logged_by [] (run [])" using logged_by_fresh by (simp add: run_def)
  then show ?case ..
next
  case (snoc op ops)
  then obtain lines where inv: "logged_by lines (run ops)" by auto
  from snoc.prems have wf: "wf_operation op" by simp
  show ?case
  proof (cases op)
    case (Set key val now rnow)
    with wf have "wf_word key" "wf_word val" "int64 now" by simp_all
    from logged_by_set [OF inv this, of rnow] Set show ?thesis
      by (auto simp add: run_snoc)
  next
    case (Del key)
    with logged_by_del [OF inv, of key] show ?thesis by (simp add: run_snoc)
  next
    case (SetDecisionPolicy p)
    with logged_by_policy [OF inv, of p] show ?thesis by (auto simp add: run_snoc)
  qed
qed

lemma set_kv_store_FULL:
  assumes "mode (retentionPolicy st) = FULL"
  shows "store (snd (set_kv st key val now rnow io))
           = (store st)(key \<mapsto> getHistory st key @ [\<lparr>timestamp = now, v_value = val\<rparr>])"
proof -
  let ?st1 = "wal_write st (set_record key val now) io"
  have full1: "mode (retentionPolicy (?st1\<lparr>store := (store ?st1)
       (key \<mapsto> getHistory ?st1 key @ [\<lparr>timestamp = now, v_value = val\<rparr>])\<rparr>)) = FULL"
    using assms by (simp add: wal_write_frame)
  show ?thesis
    unfolding set_kv_def Let_def snd_conv applyRetention_FULL [OF full1]
    by (simp add: wal_write_frame getHistory_def)
qed

lemma run_whole_ms:
  "\<forall>op \<in> set ops. wf_operation op \<and> whole_ms op \<Longrightarrow>
     truncate_store (store (run ops)) = store (run ops)"
proof (induction ops rule: rev_induct)
  case Nil
  then show ?case
    by (simp add: run_def fresh_engine_def KVStore_new_def truncate_store_empty)
next
  case (snoc op ops)
  then have ih: "truncate_store (store (run ops)) = store (run ops)" by simp
  from snoc.prems have "\<forall>op \<in> set ops. wf_operation op" by simp
  then obtain lines where "logged_by lines (run ops)" using run_logged by blast
  then have full: "mode (retentionPolicy (run ops)) = FULL" by (rule logged_by_FULL)
  show ?case
  proof (cases op)
    case (Set key val now rnow)
    with snoc.prems have whole: "from_epoch_ms (epoch_ms now) = now" by simp
    have "truncate_store (store (run (ops @ [op])))
            = truncate_store ((store (run ops))
                (key \<mapsto> (case store (run ops) key of Some vs \<Rightarrow> vs | None \<Rightarrow> [])
                   @ [\<lparr>timestamp = now, v_value = val\<rparr>]))"
      by (simp add: run_snoc Set set_kv_store_FULL [OF full] getHistory_def)
    also have "\<dots> = (store (run ops))
                (key \<mapsto> (case store (run ops) key of Some vs \<Rightarrow> vs | None \<Rightarrow> [])
                   @ [\<lparr>timestamp = now, v_value = val\<rparr>])"
      unfolding truncate_store_append by (simp add: ih whole)
    also have "\<dots> = store (run (ops @ [op]))"
      by (simp add: run_snoc Set set_kv_store_FULL [OF full] getHistory_def)
    finally show ?thesis .
  next
    case (Del key)
    have "store (run (ops @ [op])) = (store (run ops))(key := None)"
      unfolding run_snoc Del apply_operation.simps by (rule del_frame [THEN conjunct2,
        THEN conjunct2, THEN conjunct2, THEN conjunct2])
    then show ?thesis
      by (simp only: truncate_store_erase ih)
  next
    case (SetDecisionPolicy p)
    then show ?thesis
      by (simp add: run_snoc setDecisionPolicy_frame ih)
  qed
qed

lemma recover_from_logged:
  assumes inv: "logged_by lines st"
  defines "rec \<equiv> main_recovery True [] (wal_text st)"
  shows "decisionPolicy (rec snapshotTime srclk clk rclk) = decisionPolicy st
         \<and> store (rec snapshotTime srclk clk rclk) = truncate_store (store st)
         \<and> wal (rec snapshotTime srclk clk rclk) = wal st
         \<and> walEnabled (rec snapshotTime srclk clk rclk) = walEnabled st
         \<and> retentionPolicy (rec snapshotTime srclk clk rclk) = retentionPolicy st
         \<and> guards (rec snapshotTime srclk clk rclk) = guards st"
proof -
  let ?text = "concat (map (\<lambda>l. l @ [newline]) lines)"
  let ?w = "\<lparr>enabled = True, is_open = True, logFile = ?text\<rparr>"
  let ?kv = "KVStore_new (Some ?w)"
  let ?s0 = "setWalEnabled ?kv False"
  let ?p = "foldl replay_policy_line ?s0 lines"
  let ?r = "replay_data ?p clk rclk 0 lines"
  from inv have w: "wal st = Some ?w" and we: "walEnabled st"
    and rp: "retentionPolicy st = RetentionPolicy_default" and g: "guards st = []"
    and ls: "\<forall>l \<in> set lines. l \<noteq> [] \<and> newline \<notin> set l"
    and pol: "\<And>s. decisionPolicy s = SAFE_DEFAULT \<Longrightarrow>
                decisionPolicy (foldl replay_policy_line s lines) = decisionPolicy st"
    and sto: "\<And>s clk rclk i. store s = Map.empty \<and> mode (retentionPolicy s) = FULL \<Longrightarrow>
                store (replay_data s clk rclk i lines) = truncate_store (store st)"
    by (simp_all add: logged_by_def)
  have wtext: "wal_text st = ?text" by (simp add: wal_text_def w)
  have cmds: "read_commands ?text = lines" by (rule read_commands_terminated [OF ls])
  have nosnap: "read_commands [] = []" by (simp add: read_commands_def)
  have recd: "rec snapshotTime srclk clk rclk = (if lines \<noteq> [] then setWalEnabled ?r True else ?kv)"
    unfolding rec_def main_recovery_def wtext
    by (simp add: initialize_def Let_def nosnap readLog_def cmds)
  have s0: "decisionPolicy ?s0 = SAFE_DEFAULT" "store ?s0 = Map.empty"
    "mode (retentionPolicy ?s0) = FULL" "\<not> walEnabled ?s0" "wal ?s0 = Some ?w"
    "retentionPolicy ?s0 = RetentionPolicy_default" "guards ?s0 = []"
    by (simp_all add: setWalEnabled_def KVStore_new_def RetentionPolicy_default_def)
  have p: "store ?p = Map.empty" "mode (retentionPolicy ?p) = FULL" "\<not> walEnabled ?p"
    "wal ?p = Some ?w" "retentionPolicy ?p = RetentionPolicy_default" "guards ?p = []"
    using replay_policy_frame [of ?s0 lines] s0 by (simp_all add: RetentionPolicy_default_def)
  have r1: "decisionPolicy ?r = decisionPolicy st"
    using pol [OF s0(1)] by (simp add: replay_data_frame)
  have r2: "store ?r = truncate_store (store st)"
    by (rule sto) (simp add: p(1,2))
  have r3: "wal ?r = Some ?w" using replay_data_wal [OF p(3)] p(4) by simp
  have r4: "retentionPolicy ?r = RetentionPolicy_default" "guards ?r = []"
    using p(5,6) by (simp_all add: replay_data_frame)
  show ?thesis
  proof (cases "lines = []")
    case True
    with pol [OF s0(1)] sto [of ?s0 clk rclk 0] s0 w we rp g recd show ?thesis
      by (simp add: KVStore_new_def setWalEnabled_def)
  next
    case False
    with recd r1 r2 r3 r4 w we rp g show ?thesis
      by (simp add: setWalEnabled_def)
  qed
qed

text \<open>
  Claim C1 (as amended). Take any list of \<open>set\<close>, \<open>del\<close> and \<open>setDecisionPolicy\<close> calls
  on the engine \<open>main\<close> starts on empty files, every WAL write succeeding, where each key
  and value that is set is non-empty and free of white space. Recovery of a fresh engine
  from the WAL so written (no snapshot) yields the decision policy of the original engine
  and its store with every timestamp cut to whole milliseconds: the same keys, and for
  each key the same values in the same order. When every original timestamp is a whole
  number of milliseconds, the recovered engine state is the original one, so
  \<open>getAtTime\<close> answers alike for every key and timestamp.
\<close>

theorem recovery_roundtrip:
  assumes "\<forall>op \<in> set ops. wf_operation op"
  shows "decisionPolicy (main_recovery True [] (wal_text (run ops)) snapshotTime srclk clk rclk)
           = decisionPolicy (run ops)
         \<and> store (main_recovery True [] (wal_text (run ops)) snapshotTime srclk clk rclk)
             = truncate_store (store (run ops))
         \<and> ((\<forall>op \<in> set ops. whole_ms op) \<longrightarrow>
              main_recovery True [] (wal_text (run ops)) snapshotTime srclk clk rclk = run ops
              \<and> (\<forall>key T.
                    getAtTime (main_recovery True [] (wal_text (run ops)) snapshotTime srclk clk rclk)
                      key T
                    = getAtTime (run ops) key T))"
proof -
  let ?rec = "main_recovery True [] (wal_text (run ops)) snapshotTime srclk clk rclk"
  from run_logged [OF assms] obtain lines where inv: "logged_by lines (run ops)" ..
  note f = recover_from_logged [OF inv, of snapshotTime srclk clk rclk]
  have same: "?rec = run ops" if "\<forall>op \<in> set ops. whole_ms op"
  proof -
    from that assms have "truncate_store (store (run ops)) = store (run ops)"
      by (intro run_whole_ms) blast
    with f show ?thesis by (intro KVStore.equality) simp_all
  qed
  from f same show ?thesis by simp
qed

text \<open>
  Claim C1 at the restart scenario: a policy change, two writes of one key a millisecond
  apart, and a key written and deleted.
\<close>

theorem recovery_roundtrip_witness:
  "list_all wf_operation restart_ops
   \<and> list_all whole_ms restart_ops
   \<and> main_recovery True [] (wal_text (run restart_ops)) 0 zero_clock zero_clock zero_clock
       = run restart_ops
   \<and> decisionPolicy
         (main_recovery True [] (wal_text (run restart_ops)) 0 zero_clock zero_clock zero_clock)
       = STRICT
   \<and> getHistory
         (main_recovery True [] (wal_text (run restart_ops)) 0 zero_clock zero_clock zero_clock)
         ''k''
       = [\<lparr>timestamp = 1000000, v_value = ''v1''\<rparr>, \<lparr>timestamp = 2000000, v_value = ''v2''\<rparr>]
   \<and> getAtTime
         (main_recovery True [] (wal_text (run restart_ops)) 0 zero_clock zero_clock zero_clock)
         ''k'' 1000000
       = Some ''v1''"
proof -
  have wf: "\<forall>op \<in> set restart_ops. wf_operation op"
    by (simp add: restart_ops_def wf_word_def int64_def isspace_c_def)
  have wh: "\<forall>op \<in> set restart_ops. whole_ms op"
    by (simp add: restart_ops_def from_epoch_ms_def epoch_ms_def c_div_def ticks_per_ms_def)
  have eq: "main_recovery True [] (wal_text (run restart_ops)) 0 zero_clock zero_clock zero_clock
              = run restart_ops"
    by (rule recovery_roundtrip [OF wf, of 0 zero_clock zero_clock zero_clock,
          THEN conjunct2, THEN conjunct2, THEN mp, OF wh, THEN conjunct1])
  have ev: "decisionPolicy (run restart_ops) = STRICT
     \<and> getHistory (run restart_ops) ''k''
         = [\<lparr>timestamp = 1000000, v_value = ''v1''\<rparr>, \<lparr>timestamp = 2000000, v_value = ''v2''\<rparr>]
     \<and> getAtTime (run restart_ops) ''k'' 1000000 = Some ''v1''"
    by code_simp
  from wf wh ev show ?thesis
    unfolding eq by (simp add: list_all_iff)
qed

text \<open>
  Claim C1 as stated fails in two ways. Two writes of one key within the same
  millisecond come back with one timestamp, so \<open>getAtTime\<close> at the first write's
  timestamp answers with the second value. A write of the empty value comes back with
  the digits of its timestamp as the value, stamped with the time of the replay.
\<close>

theorem recovery_roundtrip_counterexample:
  "getAtTime (run same_ms_ops) ''k'' 1000001 = Some ''a''
   \<and> getAtTime (main_recovery True [] (wal_text (run same_ms_ops)) 0 zero_clock zero_clock zero_clock)
         ''k'' 1000001 = Some ''b''
   \<and> getAtTime (run empty_value_ops) ''k'' 5000000 = Some []
   \<and> getAtTime (main_recovery True [] (wal_text (run empty_value_ops)) 0 zero_clock late_clock zero_clock)
         ''k'' 5000000 = None"
  by code_simp

text \<open>
  Claim C3 fails on the recovery path. A snapshot holding \<open>k = v1\<close> and a WAL holding a
  later write of \<open>k\<close> at 1000 ms are recovered at 2000 ms: the snapshot entry is stamped
  with the time of the recovery and the WAL entry, appended after it, keeps its older
  timestamp. The history of \<open>k\<close> is then out of order, and \<open>getAtTime\<close> at 1500 ms finds
  nothing although \<open>v2\<close> was written at 1000 ms.
\<close>

theorem recovery_breaks_order:
  "getHistory recovered_after_snapshot ''k''
     = [\<lparr>timestamp = 2000000000, v_value = ''v1''\<rparr>, \<lparr>timestamp = 1000000000, v_value = ''v2''\<rparr>]
   \<and> \<not> sorted (map timestamp (getHistory recovered_after_snapshot ''k''))
   \<and> getAtTime recovered_after_snapshot ''k'' 1500000000 = None"
  by code_simp

end
